theory Spec2Isabelle
  imports Complex_Main "HOL-Library.Word" "HOL-Library.Signed_Division" "HOL-Library.Log_Nat"
begin

section \<open>Machine model of \<^verbatim>\<open>main.c\<close>\<close>

text \<open>
  The program runs on a 32-bit target: \<^verbatim>\<open>int\<close> is a 32-bit two's complement integer,
  \<^verbatim>\<open>uint16_t\<close> is a 16-bit word that is promoted to \<^verbatim>\<open>int\<close> in every arithmetic
  expression. Signed overflow, division by zero, a read or write outside an array and a
  float-to-integer conversion whose value does not fit are undefined behaviour in C; the
  model makes each of them an error value.
\<close>

type_synonym uint16_t = "16 word"

datatype error = DivisionByZero | IntOverflow | OutOfBounds | FloatToIntRange

definition INT_MAX :: int where
  "INT_MAX = 2147483647"

definition INT_MIN :: int where
  "INT_MIN = - 2147483648"

definition in_int :: "int \<Rightarrow> bool" where
  "in_int x \<longleftrightarrow> INT_MIN \<le> x \<and> x \<le> INT_MAX"

definition c_add :: "int \<Rightarrow> int \<Rightarrow> error + int" where
  "c_add a b = (if in_int (a + b) then Inr (a + b) else Inl IntOverflow)"

definition c_sub :: "int \<Rightarrow> int \<Rightarrow> error + int" where
  "c_sub a b = (if in_int (a - b) then Inr (a - b) else Inl IntOverflow)"

definition c_mul :: "int \<Rightarrow> int \<Rightarrow> error + int" where
  "c_mul a b = (if in_int (a * b) then Inr (a * b) else Inl IntOverflow)"

text \<open>C division truncates towards zero (\<open>sdiv\<close>); \<open>INT_MIN / -1\<close> overflows.\<close>

definition c_div :: "int \<Rightarrow> int \<Rightarrow> error + int" where
  "c_div a b =
     (if b = 0 then Inl DivisionByZero
      else if in_int (a sdiv b) then Inr (a sdiv b)
      else Inl IntOverflow)"

subsection \<open>Configuration macros\<close>

definition LED_GREEN_PIN :: nat where "LED_GREEN_PIN = 11"
definition LED_RED_PIN :: nat where "LED_RED_PIN = 13"
definition BUZZER_LEFT :: nat where "BUZZER_LEFT = 10"
definition BUZZER_RIGHT :: nat where "BUZZER_RIGHT = 21"
definition AUDIO_DURATION_SEC :: nat where "AUDIO_DURATION_SEC = 5"
definition SAMPLE_RATE :: nat where "SAMPLE_RATE = 16000"

definition MAX_SAMPLES :: nat where
  "MAX_SAMPLES = AUDIO_DURATION_SEC * SAMPLE_RATE"

text \<open>
  The functions below take the number of samples as a parameter \<open>N\<close>; the program
  instantiates it with \<^const>\<open>MAX_SAMPLES\<close>. Every statement proved for all \<open>N\<close>
  holds for the program's buffer of 80000 samples.
\<close>

section \<open>Peak normalisation: \<^verbatim>\<open>normalize_audio\<close>\<close>

text \<open>
  First loop of \<^verbatim>\<open>normalize_audio\<close>:
  \<^verbatim>\<open>for (int i = 0; i < len; i++) if (buffer[i] > max_val) max_val = buffer[i];\<close>
  The index \<open>i\<close> starts at 0 and stays below \<open>len\<close>, so it is a natural number
  and \<^verbatim>\<open>i++\<close> cannot overflow.
\<close>

function normalize_max :: "uint16_t list \<Rightarrow> int \<Rightarrow> nat \<Rightarrow> uint16_t \<Rightarrow> error + uint16_t" where
  "normalize_max buffer len i max_val =
     (if int i < len then
        (if i < length buffer then
           normalize_max buffer len (Suc i)
             (if buffer ! i > max_val then buffer ! i else max_val)
         else Inl OutOfBounds)
      else Inr max_val)"
  by pat_completeness auto
termination
  by (relation "measure (\<lambda>(buffer, len, i, max_val). nat len - i)") auto

text \<open>
  Second loop:
  \<^verbatim>\<open>for (int i = 0; i < len; i++) buffer[i] = (buffer[i] * 1023) / max_val;\<close>
  The operands are promoted to \<^verbatim>\<open>int\<close>, the quotient is converted back to
  \<^verbatim>\<open>uint16_t\<close> (reduction modulo \<open>2 ^ 16\<close>, which is \<^const>\<open>word_of_int\<close>).
\<close>

function normalize_scale :: "uint16_t list \<Rightarrow> int \<Rightarrow> nat \<Rightarrow> uint16_t \<Rightarrow> error + uint16_t list" where
  "normalize_scale buffer len i max_val =
     (if int i < len then
        (if i < length buffer then
           (case c_mul (uint (buffer ! i)) 1023 of
              Inl e \<Rightarrow> Inl e
            | Inr p \<Rightarrow>
                (case c_div p (uint max_val) of
                   Inl e \<Rightarrow> Inl e
                 | Inr q \<Rightarrow> normalize_scale (buffer[i := word_of_int q]) len (Suc i) max_val))
         else Inl OutOfBounds)
      else Inr buffer)"
  by pat_completeness auto
termination
  by (relation "measure (\<lambda>(buffer, len, i, max_val). nat len - i)") auto

definition normalize_audio :: "uint16_t list \<Rightarrow> int \<Rightarrow> error + uint16_t list" where
  "normalize_audio buffer len =
     (case normalize_max buffer len 0 0 of
        Inl e \<Rightarrow> Inl e
      | Inr max_val \<Rightarrow>
          if max_val = 0 then Inr buffer
          else normalize_scale buffer len 0 max_val)"

text \<open>The value the second loop stores for an entry \<open>v\<close>.\<close>

definition scaled :: "uint16_t \<Rightarrow> uint16_t \<Rightarrow> uint16_t" where
  "scaled max_val v = word_of_int ((uint v * 1023) sdiv uint max_val)"

section \<open>Single-precision arithmetic\<close>

text \<open>
  \<^verbatim>\<open>low_pass_filter\<close> computes in \<^verbatim>\<open>float\<close> (IEEE 754 binary32). A finite
  \<^verbatim>\<open>float\<close> is modelled by the rational number it denotes; every operation computes
  the exact rational result and rounds it to the nearest number with a 24-bit significand,
  ties to even. The exponent range is not bounded in the model: it agrees with binary32
  for results that are 0 or of magnitude between \<open>2 ^ -126\<close> and \<open>2 ^ 128\<close>, which
  covers every value \<^verbatim>\<open>grava_audio\<close> rounds (0, or between \<open>1 / 16\<close> and
  \<open>2 ^ 17\<close>, see \<open>low_pass_filter_operands_normal\<close> below).
\<close>

type_synonym float = rat

definition round_half_even :: "rat \<Rightarrow> int" where
  "round_half_even r =
     (let f = \<lfloor>r\<rfloor>; d = r - of_int f
      in if d < 1 / 2 then f
         else if 1 / 2 < d then f + 1
         else if even f then f else f + 1)"

text \<open>The binary exponent \<open>e\<close> of a positive number: \<open>2 ^ e \<le> x < 2 ^ (e + 1)\<close>.\<close>

definition float_exponent :: "rat \<Rightarrow> int" where
  "float_exponent x =
     (if 1 \<le> x then bitlen \<lfloor>x\<rfloor> - 1 else - bitlen (\<lceil>1 / x\<rceil> - 1))"

definition float_round :: "rat \<Rightarrow> float" where
  "float_round x =
     (if x = 0 then 0
      else let ulp = 2 powi (float_exponent \<bar>x\<bar> - 23)
           in of_int (round_half_even (x / ulp)) * ulp)"

definition float_add :: "float \<Rightarrow> float \<Rightarrow> float" where
  "float_add a b = float_round (a + b)"

definition float_sub :: "float \<Rightarrow> float \<Rightarrow> float" where
  "float_sub a b = float_round (a - b)"

definition float_mul :: "float \<Rightarrow> float \<Rightarrow> float" where
  "float_mul a b = float_round (a * b)"

text \<open>
  A \<^verbatim>\<open>uint16_t\<close> operand is promoted to \<^verbatim>\<open>int\<close> and converted to \<^verbatim>\<open>float\<close>; the
  conversion rounds like every other operation (and is exact below \<open>2 ^ 24\<close>).
\<close>

definition float_of_uint16 :: "uint16_t \<Rightarrow> float" where
  "float_of_uint16 w = float_round (of_int (uint w))"

text \<open>
  The cast \<^verbatim>\<open>(uint16_t) x\<close> of a \<^verbatim>\<open>float\<close> discards the fractional part (truncation
  towards zero); the behaviour is undefined when the integral part is not a
  \<^verbatim>\<open>uint16_t\<close> value.
\<close>

definition float_to_uint16 :: "float \<Rightarrow> error + uint16_t" where
  "float_to_uint16 x =
     (let t = (if 0 \<le> x then \<lfloor>x\<rfloor> else \<lceil>x\<rceil>)
      in if 0 \<le> t \<and> t < 65536 then Inr (word_of_int t) else Inl FloatToIntRange)"

section \<open>Low-pass filter: \<^verbatim>\<open>low_pass_filter\<close>\<close>

text \<open>
  \<^verbatim>\<open>return (uint16_t)(alpha * current_sample + (1.0f - alpha) * prev_sample);\<close>
\<close>

definition low_pass_filter :: "uint16_t \<Rightarrow> uint16_t \<Rightarrow> float \<Rightarrow> error + uint16_t" where
  "low_pass_filter current_sample prev_sample alpha =
     float_to_uint16
       (float_add (float_mul alpha (float_of_uint16 current_sample))
                  (float_mul (float_sub 1 alpha) (float_of_uint16 prev_sample)))"

section \<open>Peripherals and program state\<close>

text \<open>
  The peripherals are reached through SDK calls. The model records every output call in
  program order. \<^verbatim>\<open>play_sample (pin, value)\<close> calls \<^verbatim>\<open>pwm_set_chan_level\<close> on the PWM
  slice and channel that the SDK assigns to \<open>pin\<close>, so the write is identified by the pin.
  \<^verbatim>\<open>adc_read ()\<close> returns the next conversion result of the microphone channel: the
  state holds the readings the ADC will deliver, indexed by the number of the call.
\<close>

datatype event =
    GpioPut nat bool
  | PwmSetChanLevel nat uint16_t
  | SleepUs nat

record hw =
  audio_buffer :: "uint16_t list"
  adc_input :: "nat \<Rightarrow> uint16_t"
  adc_reads :: nat
  trace :: "event list"

definition gpio_put :: "nat \<Rightarrow> bool \<Rightarrow> hw \<Rightarrow> hw" where
  "gpio_put pin v s = s\<lparr>trace := trace s @ [GpioPut pin v]\<rparr>"

definition sleep_us :: "nat \<Rightarrow> hw \<Rightarrow> hw" where
  "sleep_us us s = s\<lparr>trace := trace s @ [SleepUs us]\<rparr>"

definition adc_read :: "hw \<Rightarrow> uint16_t \<times> hw" where
  "adc_read s = (adc_input s (adc_reads s), s\<lparr>adc_reads := Suc (adc_reads s)\<rparr>)"

definition play_sample :: "nat \<Rightarrow> uint16_t \<Rightarrow> hw \<Rightarrow> hw" where
  "play_sample buzzer_pin v s = s\<lparr>trace := trace s @ [PwmSetChanLevel buzzer_pin v]\<rparr>"

text \<open>A state after reset: the global buffer is zero-initialised, nothing has happened.\<close>

definition adc_of_list :: "uint16_t list \<Rightarrow> nat \<Rightarrow> uint16_t" where
  "adc_of_list xs k = (if k < length xs then xs ! k else 0)"

definition reset_state :: "nat \<Rightarrow> uint16_t list \<Rightarrow> hw" where
  "reset_state N readings =
     \<lparr>audio_buffer = replicate N 0, adc_input = adc_of_list readings,
      adc_reads = 0, trace = []\<rparr>"

section \<open>Capture: \<^verbatim>\<open>grava_audio\<close>\<close>

text \<open>
  The loop of \<^verbatim>\<open>grava_audio\<close>, with the loop variables \<open>i\<close> and \<open>prev\<close> as arguments:
  \<^verbatim>\<open>
  for (int i = 0; i < MAX_SAMPLES; i++) {
    uint16_t sample = adc_read();
    prev = low_pass_filter(sample, prev, alpha);
    audio_buffer[i] = prev;
    sleep_us(1000000 / SAMPLE_RATE);
  }\<close>
\<close>

function grava_loop :: "nat \<Rightarrow> float \<Rightarrow> nat \<Rightarrow> uint16_t \<Rightarrow> hw \<Rightarrow> error + hw" where
  "grava_loop N alpha i prev s =
     (if i < N then
        (case adc_read s of (sample, s1) \<Rightarrow>
           (case low_pass_filter sample prev alpha of
              Inl e \<Rightarrow> Inl e
            | Inr prev' \<Rightarrow>
                if i < length (audio_buffer s1) then
                  grava_loop N alpha (Suc i) prev'
                    (sleep_us (1000000 div SAMPLE_RATE)
                       (s1\<lparr>audio_buffer := (audio_buffer s1)[i := prev']\<rparr>))
                else Inl OutOfBounds))
      else Inr s)"
  by pat_completeness auto
termination
  by (relation "measure (\<lambda>(N, alpha, i, prev, s). N - i)") auto

text \<open>
  \<^verbatim>\<open>float alpha = 0.1f\<close>: the literal denotes the binary32 number nearest to \<open>1 / 10\<close>.
\<close>

definition grava_audio :: "nat \<Rightarrow> hw \<Rightarrow> error + hw" where
  "grava_audio N s =
     (let s0 = gpio_put LED_RED_PIN True s;
          alpha = float_round (1 / 10)
      in case grava_loop N alpha 0 0 s0 of
           Inl e \<Rightarrow> Inl e
         | Inr s1 \<Rightarrow>
             (case normalize_audio (audio_buffer s1) (int N) of
                Inl e \<Rightarrow> Inl e
              | Inr buffer \<Rightarrow> Inr (gpio_put LED_RED_PIN False (s1\<lparr>audio_buffer := buffer\<rparr>))))"

text \<open>
  The filter recurrence of the capture loop, written over the list of raw readings: each
  reading is filtered against the previous filtered value, which starts at \<open>prev\<close>; the
  filtered value is both the output entry and the next \<open>prev\<close>. Lemma
  \<open>grava_loop_capture\<close> below shows that the loop computes it.
\<close>

fun capture :: "float \<Rightarrow> uint16_t \<Rightarrow> uint16_t list \<Rightarrow> error + uint16_t list" where
  "capture alpha prev [] = Inr []"
| "capture alpha prev (raw # raws) =
     (case low_pass_filter raw prev alpha of
        Inl e \<Rightarrow> Inl e
      | Inr filtered \<Rightarrow>
          (case capture alpha filtered raws of
             Inl e \<Rightarrow> Inl e
           | Inr rest \<Rightarrow> Inr (filtered # rest)))"

text \<open>The next \<open>n\<close> readings the ADC will deliver in state \<open>s\<close>.\<close>

definition adc_pending :: "hw \<Rightarrow> nat \<Rightarrow> uint16_t list" where
  "adc_pending s n = map (\<lambda>k. adc_input s (adc_reads s + k)) [0..<n]"

section \<open>Playback: \<^verbatim>\<open>reproduz_audio\<close>\<close>

function reproduz_loop :: "nat \<Rightarrow> nat \<Rightarrow> hw \<Rightarrow> error + hw" where
  "reproduz_loop N i s =
     (if i < N then
        (if i < length (audio_buffer s) then
           reproduz_loop N (Suc i)
             (sleep_us (1000000 div SAMPLE_RATE)
                (play_sample BUZZER_RIGHT (audio_buffer s ! i)
                   (play_sample BUZZER_LEFT (audio_buffer s ! i) s)))
         else Inl OutOfBounds)
      else Inr s)"
  by pat_completeness auto
termination
  by (relation "measure (\<lambda>(N, i, s). N - i)") auto

definition reproduz_audio :: "nat \<Rightarrow> hw \<Rightarrow> error + hw" where
  "reproduz_audio N s =
     (case reproduz_loop N 0 (gpio_put LED_GREEN_PIN True s) of
        Inl e \<Rightarrow> Inl e
      | Inr s1 \<Rightarrow>
          Inr (gpio_put LED_GREEN_PIN False
                 (play_sample BUZZER_RIGHT 0 (play_sample BUZZER_LEFT 0 s1))))"

text \<open>The PWM level writes of a trace, as (pin, level) pairs in order.\<close>

fun pwm_writes :: "event list \<Rightarrow> (nat \<times> uint16_t) list" where
  "pwm_writes [] = []"
| "pwm_writes (PwmSetChanLevel pin v # es) = (pin, v) # pwm_writes es"
| "pwm_writes (e # es) = pwm_writes es"

section \<open>Moving average: \<^verbatim>\<open>moving_average_filter\<close>\<close>

text \<open>
  The loop
  \<^verbatim>\<open>for (int i = index - window; i <= index + window; i++)
    if (i >= 0 && i < MAX_SAMPLES) { sum += buffer[i]; count++; }\<close>
  with \<open>hi\<close> the value of \<^verbatim>\<open>index + window\<close>. All variables are \<^verbatim>\<open>int\<close>; every
  addition is checked for overflow (\<open>sum_v\<close> is the variable \<^verbatim>\<open>sum\<close>).
\<close>

function mavg_loop :: "nat \<Rightarrow> uint16_t list \<Rightarrow> int \<Rightarrow> int \<Rightarrow> int \<Rightarrow> int \<Rightarrow> error + int \<times> int" where
  "mavg_loop N buffer hi i sum_v count =
     (if i \<le> hi then
        (if 0 \<le> i \<and> i < int N then
           (if nat i < length buffer then
              (case c_add sum_v (uint (buffer ! nat i)) of
                 Inl e \<Rightarrow> Inl e
               | Inr sum_v' \<Rightarrow>
                   (case c_add count 1 of
                      Inl e \<Rightarrow> Inl e
                    | Inr count' \<Rightarrow>
                        if i < INT_MAX then mavg_loop N buffer hi (i + 1) sum_v' count'
                        else Inl IntOverflow))
            else Inl OutOfBounds)
         else if i < INT_MAX then mavg_loop N buffer hi (i + 1) sum_v count
         else Inl IntOverflow)
      else Inr (sum_v, count))"
  by pat_completeness auto
termination
  by (relation "measure (\<lambda>(N, buffer, hi, i, sum_v, count). nat (hi + 1 - i))") auto

definition moving_average_filter :: "nat \<Rightarrow> uint16_t list \<Rightarrow> int \<Rightarrow> int \<Rightarrow> error + uint16_t" where
  "moving_average_filter N buffer index window =
     (case c_sub index window of
        Inl e \<Rightarrow> Inl e
      | Inr lo \<Rightarrow>
          (case c_add index window of
             Inl e \<Rightarrow> Inl e
           | Inr hi \<Rightarrow>
               (case mavg_loop N buffer hi lo 0 0 of
                  Inl e \<Rightarrow> Inl e
                | Inr (sum_v, count) \<Rightarrow>
                    (case c_div sum_v count of
                       Inl e \<Rightarrow> Inl e
                     | Inr q \<Rightarrow> Inr (word_of_int q)))))"

text \<open>
  The indices the loop of \<^verbatim>\<open>moving_average_filter\<close> accepts: those of
  \<open>[index - window, index + window]\<close> that lie in \<open>[0, N - 1]\<close>.
\<close>

definition window_indices :: "nat \<Rightarrow> int \<Rightarrow> int \<Rightarrow> int list" where
  "window_indices N index window =
     filter (\<lambda>k. 0 \<le> k \<and> k < int N) [index - window..index + window]"

declare normalize_max.simps [simp del] normalize_scale.simps [simp del]
declare grava_loop.simps [simp del] reproduz_loop.simps [simp del] mavg_loop.simps [simp del]

section \<open>Properties of \<^verbatim>\<open>normalize_audio\<close>\<close>

lemma MAX_SAMPLES_value: "MAX_SAMPLES = 80000"
  by (simp add: MAX_SAMPLES_def AUDIO_DURATION_SEC_def SAMPLE_RATE_def)

lemma normalize_max_eq:
  "len = int (length buffer) \<Longrightarrow> i \<le> length buffer \<Longrightarrow>
   normalize_max buffer len i max_val = Inr (fold max (drop i buffer) max_val)"
proof (induction buffer len i max_val rule: normalize_max.induct)
  case (1 buffer len i max_val)
  show ?case
  proof (cases "i < length buffer")
    case True
    have step: "(if max_val < buffer ! i then buffer ! i else max_val) = max (buffer ! i) max_val"
      by (auto simp: max_def)
    have "normalize_max buffer len i max_val =
          normalize_max buffer len (Suc i) (max (buffer ! i) max_val)"
      using True "1.prems"(1) by (subst normalize_max.simps) (simp add: step)
    also have "\<dots> = Inr (fold max (drop (Suc i) buffer) (max (buffer ! i) max_val))"
      using "1.IH" [OF _ True] True "1.prems" by (simp add: step)
    also have "\<dots> = Inr (fold max (drop i buffer) max_val)"
      using True by (simp add: Cons_nth_drop_Suc [symmetric])
    finally show ?thesis .
  next
    case False
    with "1.prems" have "i = length buffer" by simp
    with "1.prems" show ?thesis by (subst normalize_max.simps) simp
  qed
qed

lemma fold_max_zero:
  "buffer \<noteq> [] \<Longrightarrow> fold max buffer (0 :: uint16_t) = Max (set buffer)"
proof -
  assume "buffer \<noteq> []"
  have "fold max buffer (0 :: uint16_t) = Max (set (0 # buffer))"
    by (simp only: Max.set_eq_fold)
  also have "\<dots> = max 0 (Max (set buffer))"
    using \<open>buffer \<noteq> []\<close> by simp
  also have "\<dots> = Max (set buffer)"
    by (simp add: max_def)
  finally show ?thesis .
qed

lemma fold_max_all_zero:
  "\<forall>v \<in> set buffer. v = 0 \<Longrightarrow> fold max buffer (0 :: uint16_t) = 0"
  by (induction buffer) simp_all

lemma c_mul_sample: "c_mul (uint (v :: uint16_t)) 1023 = Inr (uint v * 1023)"
proof -
  have "uint v < 65536" using uint_bounded [of v] by simp
  then have "uint v * 1023 \<le> 2147483647" by simp
  moreover have "- 2147483648 \<le> uint v * 1023"
    by (rule order_trans [of _ 0]) simp_all
  ultimately show ?thesis
    by (simp add: c_mul_def in_int_def INT_MIN_def INT_MAX_def)
qed

lemma c_div_sample:
  assumes "max_val \<noteq> 0"
  shows "c_div (uint (v :: uint16_t) * 1023) (uint (max_val :: uint16_t))
         = Inr ((uint v * 1023) sdiv uint max_val)"
proof -
  have "uint max_val \<noteq> 0" using assms by (simp add: uint_0_iff)
  moreover have "0 \<le> uint max_val" by simp
  ultimately have m: "0 < uint max_val" by linarith
  have v: "0 \<le> uint v * 1023" by simp
  have "uint v < 65536" using uint_bounded [of v] by simp
  then have le: "uint v * 1023 \<le> INT_MAX" by (simp add: INT_MAX_def)
  have eq: "(uint v * 1023) sdiv uint max_val = (uint v * 1023) div uint max_val"
    using m v by (simp add: signed_divide_int_def sgn_if)
  have "0 \<le> (uint v * 1023) div uint max_val" using m v by (simp add: pos_imp_zdiv_nonneg_iff)
  moreover have "(uint v * 1023) div uint max_val \<le> uint v * 1023"
    using zdiv_mono2 [of "uint v * 1023" 1 "uint max_val"] m v by simp
  ultimately show ?thesis using m le
    by (simp add: c_div_def eq in_int_def INT_MIN_def INT_MAX_def)
qed

lemma normalize_scale_eq:
  "max_val \<noteq> 0 \<Longrightarrow> len = int (length buffer) \<Longrightarrow> i \<le> length buffer \<Longrightarrow>
   normalize_scale buffer len i max_val
   = Inr (take i buffer @ map (scaled max_val) (drop i buffer))"
proof (induction buffer len i max_val rule: normalize_scale.induct)
  case (1 buffer len i max_val)
  show ?case
  proof (cases "i < length buffer")
    case True
    let ?q = "(uint (buffer ! i) * 1023) sdiv uint max_val"
    let ?b = "buffer[i := word_of_int ?q]"
    have unfold: "normalize_scale buffer len i max_val = normalize_scale ?b len (Suc i) max_val"
      using True "1.prems"
      by (subst normalize_scale.simps) (simp add: c_mul_sample c_div_sample)
    have lt: "int i < len" using True "1.prems" by simp
    have "normalize_scale ?b len (Suc i) max_val
          = Inr (take (Suc i) ?b @ map (scaled max_val) (drop (Suc i) ?b))"
      using True "1.prems"
      by (intro "1.IH" [OF lt True c_mul_sample c_div_sample]) simp_all
    also have "take (Suc i) ?b = take i buffer @ [scaled max_val (buffer ! i)]"
      using True by (simp add: take_Suc_conv_app_nth scaled_def)
    also have "drop (Suc i) ?b = drop (Suc i) buffer"
      by simp
    finally show ?thesis
      using True unfold by (simp add: Cons_nth_drop_Suc [symmetric])
  next
    case False
    with "1.prems" have "i = length buffer" by simp
    with "1.prems" show ?thesis by (subst normalize_scale.simps) simp
  qed
qed

lemma scaled_uint:
  assumes "max_val \<noteq> 0" and "v \<le> max_val"
  shows "uint (scaled max_val v) = uint v * 1023 div uint max_val"
    and "uint (scaled max_val v) \<le> 1023"
proof -
  have "uint max_val \<noteq> 0" using assms(1) by (simp add: uint_0_iff)
  moreover have "0 \<le> uint max_val" by simp
  ultimately have m: "0 < uint max_val" by linarith
  have v: "0 \<le> uint v * 1023" by simp
  have le: "uint v \<le> uint max_val" using assms(2) by (simp add: word_le_def)
  let ?q = "uint v * 1023 div uint max_val"
  have eq: "(uint v * 1023) sdiv uint max_val = ?q"
    using m v by (simp add: signed_divide_int_def sgn_if)
  have q0: "0 \<le> ?q" using m v by (simp add: pos_imp_zdiv_nonneg_iff)
  have "?q \<le> uint max_val * 1023 div uint max_val"
    using le m by (intro zdiv_mono1) simp_all
  also have "\<dots> = 1023" using m by simp
  finally have q1: "?q \<le> 1023" .
  have "uint (scaled max_val v) = ?q mod 2 ^ 16"
    by (simp add: scaled_def eq uint_word_of_int)
  also have "\<dots> = ?q" using q0 q1 by simp
  finally show "uint (scaled max_val v) = ?q" .
  then show "uint (scaled max_val v) \<le> 1023" using q1 by simp
qed

lemma scaled_unat:
  assumes "max_val \<noteq> 0" and "v \<le> max_val"
  shows "unat (scaled max_val v) = unat v * 1023 div unat max_val"
proof -
  have "int (unat (scaled max_val v)) = int (unat v * 1023 div unat max_val)"
    using scaled_uint(1) [OF assms] by (simp add: zdiv_int)
  then show ?thesis by (simp only: of_nat_eq_iff)
qed

lemma scaled_le:
  assumes "max_val \<noteq> 0" and "v \<le> max_val"
  shows "scaled max_val v \<le> 1023"
  using scaled_uint(2) [OF assms] by (simp add: word_le_def)

lemma scaled_peak:
  assumes "max_val \<noteq> 0"
  shows "scaled max_val max_val = 1023"
proof -
  have "uint max_val \<noteq> 0" using assms by (simp add: uint_0_iff)
  then have "uint (scaled max_val max_val) = 1023"
    using scaled_uint(1) [OF assms order_refl] by simp
  then have "uint (scaled max_val max_val) = uint (1023 :: uint16_t)" by simp
  then show ?thesis by (simp only: word_uint_eq_iff)
qed

lemma scaled_full_scale:
  assumes "v \<le> 1023"
  shows "scaled 1023 v = v"
proof -
  have "uint (scaled 1023 v) = uint v"
    using scaled_uint(1) [of 1023 v] assms by simp
  then show ?thesis by (simp only: word_uint_eq_iff)
qed

lemma normalize_audio_nonsilent:
  assumes "buffer \<noteq> []" and "Max (set buffer) \<noteq> 0"
  shows "normalize_audio buffer (int (length buffer))
         = Inr (map (scaled (Max (set buffer))) buffer)"
  using assms
  by (simp add: normalize_audio_def normalize_max_eq fold_max_zero normalize_scale_eq)

text \<open>
  Claim C1. For a buffer whose maximum entry is greater than 0, \<^verbatim>\<open>normalize_audio\<close>
  returns normally and replaces every entry \<open>v\<close> by \<open>v * 1023 div max_val\<close> (the floor of
  \<open>v * 1023 / max_val\<close>); afterwards the maximum entry is 1023 and every entry is at most
  1023 (entries are unsigned, so they are at least 0).
\<close>

theorem normalize_audio_rescales:
  assumes "buffer \<noteq> []" and "0 < Max (set buffer)"
  shows "\<exists>out. normalize_audio buffer (int (length buffer)) = Inr out
           \<and> length out = length buffer
           \<and> (\<forall>i < length buffer.
                 unat (out ! i) = unat (buffer ! i) * 1023 div unat (Max (set buffer)))
           \<and> Max (set out) = 1023
           \<and> (\<forall>i < length buffer. out ! i \<le> 1023)"
proof -
  let ?m = "Max (set buffer)"
  let ?out = "map (scaled ?m) buffer"
  have m0: "?m \<noteq> 0" using assms(2) by simp
  have m_in: "?m \<in> set buffer" using assms(1) by (intro Max_in) simp_all
  have le: "v \<le> ?m" if "v \<in> set buffer" for v using that by simp
  have run: "normalize_audio buffer (int (length buffer)) = Inr ?out"
    using assms(1) m0 by (rule normalize_audio_nonsilent)
  have entries: "\<forall>i < length buffer. unat (?out ! i) = unat (buffer ! i) * 1023 div unat ?m"
    using m0 le by (simp add: scaled_unat)
  have bound: "\<forall>i < length buffer. ?out ! i \<le> 1023"
    using m0 le by (simp add: scaled_le)
  have "1023 \<in> set ?out"
    using m_in scaled_peak [OF m0] by (metis image_eqI set_map)
  moreover have "v \<le> 1023" if "v \<in> set ?out" for v
    using that m0 le by (auto simp: scaled_le)
  ultimately have peak: "Max (set ?out) = 1023"
    by (intro Max_eqI) simp_all
  show ?thesis using run entries bound peak by simp
qed

theorem normalize_audio_rescales_witness:
  "[10, 19, 27 :: uint16_t] \<noteq> [] \<and> 0 < Max (set [10, 19, 27 :: uint16_t])
   \<and> (\<exists>out. normalize_audio [10, 19, 27] 3 = Inr out
         \<and> length out = 3
         \<and> unat (out ! 0) = 378 \<and> unat (out ! 1) = 719 \<and> unat (out ! 2) = 1023
         \<and> Max (set out) = 1023
         \<and> out ! 0 \<le> 1023 \<and> out ! 1 \<le> 1023 \<and> out ! 2 \<le> 1023)"
proof -
  obtain out where out: "normalize_audio [10, 19, 27] 3 = Inr out" "length out = 3"
      "\<forall>i < 3. unat (out ! i) = unat ([10, 19, 27 :: uint16_t] ! i) * 1023 div 27"
      "Max (set out) = 1023" "\<forall>i < 3. out ! i \<le> 1023"
    using normalize_audio_rescales [of "[10, 19, 27]"] by (auto simp: numeral_3_eq_3)
  have "unat (out ! 0) = 378" "unat (out ! 1) = 719" "unat (out ! 2) = 1023"
    using out(3) [rule_format, of 0] out(3) [rule_format, of 1] out(3) [rule_format, of 2]
    by simp_all
  moreover have "out ! 0 \<le> 1023" "out ! 1 \<le> 1023" "out ! 2 \<le> 1023"
    using out(5) by simp_all
  ultimately show ?thesis using out(1,2,4) by simp
qed

text \<open>
  Claim C3. For a buffer all of whose entries are 0 (its maximum entry is 0),
  \<^verbatim>\<open>normalize_audio\<close> returns normally with every entry unchanged: the second loop, the
  only place that divides, is skipped, so the result is not the division-by-zero error.
\<close>

theorem normalize_audio_silence:
  assumes "\<forall>v \<in> set buffer. v = 0"
  shows "normalize_audio buffer (int (length buffer)) = Inr buffer"
  using assms by (simp add: normalize_audio_def normalize_max_eq fold_max_all_zero)

theorem normalize_audio_silence_witness:
  "normalize_audio [0, 0, 0] 3 = Inr [0, 0, 0]"
  using normalize_audio_silence [of "[0, 0, 0]"] by simp

text \<open>
  Claim C9. For a buffer whose maximum entry already equals 1023, \<^verbatim>\<open>normalize_audio\<close>
  leaves every entry unchanged.
\<close>

theorem normalize_audio_full_scale:
  assumes "buffer \<noteq> []" and "Max (set buffer) = 1023"
  shows "normalize_audio buffer (int (length buffer)) = Inr buffer"
proof -
  have "v \<le> 1023" if "v \<in> set buffer" for v
    using that assms(2) Max_ge [of "set buffer" v] by simp
  then have "map (scaled 1023) buffer = buffer"
    by (simp add: scaled_full_scale map_idI)
  then show ?thesis
    using normalize_audio_nonsilent [OF assms(1)] assms(2) by simp
qed

theorem normalize_audio_full_scale_witness:
  "[5, 1023, 512 :: uint16_t] \<noteq> [] \<and> Max (set [5, 1023, 512 :: uint16_t]) = 1023
   \<and> normalize_audio [5, 1023, 512] 3 = Inr [5, 1023, 512]"
  using normalize_audio_full_scale [of "[5, 1023, 512]"] by simp


section \<open>Range of \<^verbatim>\<open>low_pass_filter\<close>\<close>

text \<open>
  Rounding to nearest increases a non-negative number by at most the factor
  \<open>1 + 2 ^ -24\<close>. With \<open>alpha = 0.1f\<close> the two weights add up to less than 1, so the
  filter output, after truncation, never exceeds the larger of its two samples.
\<close>

lemma bitlen_pos: "0 < n \<Longrightarrow> 1 \<le> bitlen n"
  using bitlen_eq_zero_iff [of n] bitlen_nonneg [of n] by linarith

lemma float_exponent_le:
  assumes "0 < x"
  shows "2 powi (float_exponent x) \<le> x"
proof (cases "1 \<le> x")
  case True
  let ?n = "\<lfloor>x\<rfloor>"
  have n: "0 < ?n" using True by simp
  have e: "0 \<le> bitlen ?n - 1" using bitlen_pos [OF n] by simp
  have "2 ^ nat (bitlen ?n - 1) \<le> ?n" using bitlen_bounds [OF n] ..
  then have "rat_of_int (2 ^ nat (bitlen ?n - 1)) \<le> rat_of_int ?n"
    by (simp only: of_int_le_iff)
  then have "(2::rat) ^ nat (bitlen ?n - 1) \<le> of_int ?n" by simp
  also have "\<dots> \<le> x" by simp
  finally show ?thesis using True e by (simp add: float_exponent_def power_int_def)
next
  case False
  let ?c = "\<lceil>1 / x\<rceil> - 1"
  let ?k = "bitlen ?c"
  have "1 < 1 / x" using assms False by simp
  then have "1 < \<lceil>1 / x\<rceil>" by (simp add: less_ceiling_iff)
  then have c: "0 < ?c" by simp
  have k: "1 \<le> ?k" using bitlen_pos [OF c] .
  have "?c < 2 ^ nat ?k" using bitlen_bounds [OF c] ..
  then have "\<lceil>1 / x\<rceil> \<le> 2 ^ nat ?k" by simp
  then have "rat_of_int \<lceil>1 / x\<rceil> \<le> rat_of_int (2 ^ nat ?k)"
    by (simp only: of_int_le_iff)
  then have "rat_of_int \<lceil>1 / x\<rceil> \<le> 2 ^ nat ?k" by simp
  moreover have "1 / x \<le> rat_of_int \<lceil>1 / x\<rceil>" by (rule le_of_int_ceiling)
  ultimately have "1 / x \<le> 2 ^ nat ?k" by linarith
  then have "1 \<le> 2 ^ nat ?k * x" using assms by (simp add: field_simps)
  then have "1 / 2 ^ nat ?k \<le> x" by (simp add: field_simps)
  moreover have "2 powi (float_exponent x) = 1 / (2::rat) ^ nat ?k"
    using False k by (simp add: float_exponent_def power_int_def field_simps)
  ultimately show ?thesis by simp
qed

lemma round_half_even_bounds:
  "rat_of_int (round_half_even r) \<le> r + 1 / 2"
  "0 \<le> r \<Longrightarrow> 0 \<le> round_half_even r"
proof -
  define f where "f = \<lfloor>r\<rfloor>"
  have f: "rat_of_int f \<le> r" unfolding f_def by simp
  have unfold: "round_half_even r =
      (if r - of_int f < 1 / 2 then f
       else if 1 / 2 < r - of_int f then f + 1
       else if even f then f else f + 1)"
    by (simp add: round_half_even_def Let_def f_def)
  show "rat_of_int (round_half_even r) \<le> r + 1 / 2"
    unfolding unfold using f by (auto split: if_splits)
  assume "0 \<le> r"
  then have "0 \<le> f" unfolding f_def by simp
  then show "0 \<le> round_half_even r"
    unfolding unfold by (auto split: if_splits)
qed

lemma float_round_bounds:
  assumes "0 \<le> x"
  shows "0 \<le> float_round x" and "float_round x \<le> x * (1 + 1 / 2 ^ 24)"
proof -
  show "0 \<le> float_round x"
  proof (cases "x = 0")
    case True then show ?thesis by (simp add: float_round_def)
  next
    case False
    let ?ulp = "(2::rat) powi (float_exponent \<bar>x\<bar> - 23)"
    have ulp: "0 < ?ulp" by (simp add: power_int_def)
    then have "0 \<le> x / ?ulp" using assms by simp
    then have "0 \<le> round_half_even (x / ?ulp)" by (rule round_half_even_bounds(2))
    then show ?thesis using False ulp by (simp add: float_round_def Let_def)
  qed
  show "float_round x \<le> x * (1 + 1 / 2 ^ 24)"
  proof (cases "x = 0")
    case True then show ?thesis by (simp add: float_round_def)
  next
    case False
    then have pos: "0 < x" using assms by simp
    let ?e = "float_exponent x"
    let ?ulp = "(2::rat) powi (?e - 23)"
    have ulp: "0 < ?ulp" by (simp add: power_int_def)
    have "?ulp = 2 powi ?e / 2 ^ 23"
      by (simp add: power_int_diff)
    also have "\<dots> \<le> x / 2 ^ 23"
      using float_exponent_le [OF pos] by (simp add: divide_right_mono)
    finally have ulp_le: "?ulp \<le> x / 2 ^ 23" .
    have "float_round x = rat_of_int (round_half_even (x / ?ulp)) * ?ulp"
      using False pos by (simp add: float_round_def Let_def)
    also have "\<dots> \<le> (x / ?ulp + 1 / 2) * ?ulp"
      using round_half_even_bounds(1) [of "x / ?ulp"] ulp
      by (simp only: mult_right_mono less_imp_le)
    also have "\<dots> = x + ?ulp / 2"
      using ulp by (simp add: field_simps)
    also have "\<dots> \<le> x + (x / 2 ^ 23) / 2"
      using ulp_le by simp
    also have "\<dots> = x * (1 + 1 / 2 ^ 24)"
      by (simp add: field_simps)
    finally show ?thesis .
  qed
qed

lemma alpha_value: "float_round (1 / 10) = 13421773 / 134217728"
  by code_simp

lemma one_minus_alpha_value: "float_sub 1 (13421773 / 134217728) = 15099494 / 16777216"
  by code_simp

lemma float_of_uint16_bounds:
  assumes "uint w \<le> M"
  shows "0 \<le> float_of_uint16 w" and "float_of_uint16 w \<le> of_int M * (1 + 1 / 2 ^ 24)"
proof -
  define n where "n = uint w"
  have "0 \<le> n" by (simp add: n_def)
  then have n0: "0 \<le> rat_of_int n" by (simp only: of_int_0_le_iff)
  have eq: "float_of_uint16 w = float_round (rat_of_int n)"
    by (simp add: float_of_uint16_def n_def)
  show "0 \<le> float_of_uint16 w"
    unfolding eq using n0 by (rule float_round_bounds(1))
  have "rat_of_int n \<le> rat_of_int M" using assms unfolding n_def by (simp only: of_int_le_iff)
  then have "rat_of_int n * (1 + 1 / 2 ^ 24) \<le> rat_of_int M * (1 + 1 / 2 ^ 24)"
    by (intro mult_right_mono) simp_all
  moreover have "float_round (rat_of_int n) \<le> rat_of_int n * (1 + 1 / 2 ^ 24)"
    using n0 by (rule float_round_bounds(2))
  ultimately show "float_of_uint16 w \<le> of_int M * (1 + 1 / 2 ^ 24)"
    unfolding eq by linarith
qed

lemma float_mul_bounds:
  assumes "0 \<le> a" and "0 \<le> x" and "x \<le> y"
  shows "0 \<le> float_mul a x" and "float_mul a x \<le> a * y * (1 + 1 / 2 ^ 24)"
proof -
  have ax: "0 \<le> a * x" using assms by simp
  show "0 \<le> float_mul a x"
    using float_round_bounds(1) [OF ax] by (simp add: float_mul_def)
  have "float_mul a x \<le> a * x * (1 + 1 / 2 ^ 24)"
    using float_round_bounds(2) [OF ax] by (simp add: float_mul_def)
  also have "\<dots> \<le> a * y * (1 + 1 / 2 ^ 24)"
    using assms by (intro mult_right_mono mult_left_mono) simp_all
  finally show "float_mul a x \<le> a * y * (1 + 1 / 2 ^ 24)" .
qed

lemma low_pass_filter_value:
  fixes c p :: uint16_t
  defines "M \<equiv> max (uint c) (uint p)"
  shows "\<exists>t. low_pass_filter c p (float_round (1 / 10)) = Inr (word_of_int t) \<and> 0 \<le> t \<and> t \<le> M"
proof -
  define a :: rat where "a = 13421773 / 134217728"
  define b :: rat where "b = 15099494 / 16777216"
  define u :: rat where "u = 1 + 1 / 2 ^ 24"
  define m :: rat where "m = of_int M"
  define C where "C = float_of_uint16 c"
  define P where "P = float_of_uint16 p"
  define X where "X = float_mul a C"
  define Y where "Y = float_mul b P"
  define S where "S = float_add X Y"
  have M0: "0 \<le> M" and M1: "M < 65536"
    using uint_bounded [of c] uint_bounded [of p] by (simp_all add: M_def max_def)
  have m0: "0 \<le> m" and m1: "m < 65536" using M0 M1 by (simp_all add: m_def)
  have cm: "uint c \<le> M" and pm: "uint p \<le> M"
    by (simp_all add: M_def)
  have C: "0 \<le> C" "C \<le> m * u"
    using float_of_uint16_bounds [OF cm] by (simp_all add: C_def u_def m_def)
  have P: "0 \<le> P" "P \<le> m * u"
    using float_of_uint16_bounds [OF pm] by (simp_all add: P_def u_def m_def)
  have X: "0 \<le> X" "X \<le> a * (m * u) * u"
    using float_mul_bounds [of a C "m * u"] C by (simp_all add: X_def a_def u_def)
  have Y: "0 \<le> Y" "Y \<le> b * (m * u) * u"
    using float_mul_bounds [of b P "m * u"] P by (simp_all add: Y_def b_def u_def)
  have XY: "0 \<le> X + Y" using X(1) Y(1) by simp
  have S0: "0 \<le> S"
    using float_round_bounds(1) [OF XY] by (simp add: S_def float_add_def)
  have "S \<le> (X + Y) * u"
    using float_round_bounds(2) [OF XY] by (simp add: S_def float_add_def u_def)
  also have "\<dots> \<le> (a * (m * u) * u + b * (m * u) * u) * u"
    using X(2) Y(2) by (intro mult_right_mono add_mono) (simp_all add: u_def)
  also have "\<dots> = m * ((a + b) * (u * u * u))"
    by (simp add: algebra_simps)
  also have "\<dots> \<le> m * (1 + 1 / 65536)"
    using m0 by (intro mult_left_mono) (simp_all add: a_def b_def u_def)
  also have "\<dots> < m + 1"
    using m1 by (simp add: algebra_simps)
  finally have S1: "S < rat_of_int (M + 1)" by (simp add: m_def)
  have "M + 1 \<le> 65536" using M1 by simp
  then have "rat_of_int (M + 1) \<le> rat_of_int 65536" by (simp only: of_int_le_iff)
  then have S2: "S < 65536" using S1 by simp
  have t0: "0 \<le> \<lfloor>S\<rfloor>" using S0 by simp
  have "\<lfloor>S\<rfloor> < M + 1" using S1 by (simp only: floor_less_iff)
  then have t1: "\<lfloor>S\<rfloor> \<le> M" by simp
  have "low_pass_filter c p (float_round (1 / 10)) = float_to_uint16 S"
    unfolding low_pass_filter_def alpha_value one_minus_alpha_value
      S_def X_def Y_def C_def P_def a_def b_def
    by (rule refl)
  also have "\<dots> = Inr (word_of_int \<lfloor>S\<rfloor>)"
    using S0 S2 by (simp add: float_to_uint16_def Let_def)
  finally show ?thesis using t0 t1 by blast
qed

lemma low_pass_filter_bound:
  "\<exists>r. low_pass_filter c p (float_round (1 / 10)) = Inr r \<and> r \<le> max c p"
proof -
  obtain t where t: "low_pass_filter c p (float_round (1 / 10)) = Inr (word_of_int t)"
      "0 \<le> t" "t \<le> max (uint c) (uint p)"
    using low_pass_filter_value [of c p] by blast
  have "max (uint c) (uint p) < 65536"
    using uint_bounded [of c] uint_bounded [of p] by (simp add: max_def)
  then have "t < 65536" using t(3) by linarith
  then have "t < 2 ^ 16" by simp
  then have "uint (word_of_int t :: uint16_t) = t"
    using t(2) by (simp add: uint_word_of_int)
  moreover have "uint (max c p) = max (uint c) (uint p)"
    by (simp add: max_def word_le_def)
  ultimately have "(word_of_int t :: uint16_t) \<le> max c p"
    using t(3) by (simp add: word_le_def)
  then show ?thesis using t(1) by blast
qed


subsection \<open>The rounding model on the values of the filter\<close>

lemma float_exponent_less:
  assumes "0 < x"
  shows "x < 2 powi (float_exponent x + 1)"
proof (cases "1 \<le> x")
  case True
  let ?n = "\<lfloor>x\<rfloor>"
  have n: "0 < ?n" using True by simp
  have e: "0 \<le> bitlen ?n - 1" using bitlen_pos [OF n] by simp
  have "?n < 2 ^ nat (bitlen ?n)" using bitlen_bounds [OF n] ..
  then have "?n + 1 \<le> 2 ^ nat (bitlen ?n)" by simp
  then have "rat_of_int (?n + 1) \<le> rat_of_int (2 ^ nat (bitlen ?n))"
    by (simp only: of_int_le_iff)
  then have "rat_of_int ?n + 1 \<le> 2 ^ nat (bitlen ?n)" by simp
  moreover have "x < rat_of_int ?n + 1" by linarith
  ultimately have "x < 2 ^ nat (bitlen ?n)" by linarith
  moreover have "float_exponent x + 1 = bitlen ?n" using True by (simp add: float_exponent_def)
  ultimately show ?thesis using e by (simp add: power_int_def)
next
  case False
  let ?c = "\<lceil>1 / x\<rceil> - 1"
  let ?k = "bitlen ?c"
  have "1 < 1 / x" using assms False by simp
  then have "1 < \<lceil>1 / x\<rceil>" by (simp add: less_ceiling_iff)
  then have c: "0 < ?c" by simp
  have k: "1 \<le> ?k" using bitlen_pos [OF c] .
  have "2 ^ nat (?k - 1) \<le> ?c" using bitlen_bounds [OF c] ..
  then have "rat_of_int (2 ^ nat (?k - 1)) \<le> rat_of_int ?c"
    by (simp only: of_int_le_iff)
  then have "2 ^ nat (?k - 1) \<le> rat_of_int \<lceil>1 / x\<rceil> - 1" by simp
  moreover have "rat_of_int \<lceil>1 / x\<rceil> - 1 < 1 / x" by linarith
  ultimately have "2 ^ nat (?k - 1) < 1 / x" by linarith
  then have "2 ^ nat (?k - 1) * x < 1" using assms by (simp add: field_simps)
  then have lt: "x < 1 / 2 ^ nat (?k - 1)" by (simp add: field_simps)
  define j where "j = nat (?k - 1)"
  have "float_exponent x + 1 = - int j"
    using False k by (simp add: float_exponent_def j_def)
  then have "2 powi (float_exponent x + 1) = 1 / (2::rat) ^ j"
    by (simp add: power_int_minus field_simps)
  then show ?thesis using lt by (simp add: j_def)
qed

lemma round_half_even_lower: "r - 1 / 2 \<le> rat_of_int (round_half_even r)"
proof -
  define f where "f = \<lfloor>r\<rfloor>"
  have f: "r < rat_of_int f + 1" unfolding f_def by linarith
  have unfold: "round_half_even r =
      (if r - of_int f < 1 / 2 then f
       else if 1 / 2 < r - of_int f then f + 1
       else if even f then f else f + 1)"
    by (simp add: round_half_even_def Let_def f_def)
  show ?thesis unfolding unfold using f by (auto split: if_splits)
qed

lemma round_half_even_of_int: "round_half_even (rat_of_int n) = n"
  by (simp add: round_half_even_def Let_def)

lemma float_round_lower:
  assumes "0 \<le> x"
  shows "x * (1 - 1 / 2 ^ 24) \<le> float_round x"
proof (cases "x = 0")
  case True then show ?thesis by (simp add: float_round_def)
next
  case False
  then have pos: "0 < x" using assms by simp
  let ?e = "float_exponent x"
  let ?ulp = "(2::rat) powi (?e - 23)"
  have ulp: "0 < ?ulp" by (simp add: power_int_def)
  have "?ulp = 2 powi ?e / 2 ^ 23" by (simp add: power_int_diff)
  also have "\<dots> \<le> x / 2 ^ 23"
    using float_exponent_le [OF pos] by (simp add: divide_right_mono)
  finally have ulp_le: "?ulp \<le> x / 2 ^ 23" .
  have "x * (1 - 1 / 2 ^ 24) = x - (x / 2 ^ 23) / 2" by (simp add: field_simps)
  also have "\<dots> \<le> x - ?ulp / 2" using ulp_le by simp
  also have "\<dots> = (x / ?ulp - 1 / 2) * ?ulp" using ulp by (simp add: field_simps)
  also have "\<dots> \<le> rat_of_int (round_half_even (x / ?ulp)) * ?ulp"
    using round_half_even_lower [of "x / ?ulp"] ulp
    by (simp only: mult_right_mono less_imp_le)
  also have "\<dots> = float_round x"
    using False pos by (simp add: float_round_def Let_def)
  finally show ?thesis .
qed

text \<open>Integers below \<open>2 ^ 24\<close> are binary32 numbers: rounding leaves them unchanged.\<close>

lemma float_round_int_exact:
  assumes "0 \<le> n" and "n < 2 ^ 24"
  shows "float_round (rat_of_int n) = rat_of_int n"
proof (cases "n = 0")
  case True then show ?thesis by (simp add: float_round_def)
next
  case False
  then have n: "0 < n" using assms(1) by simp
  then have one: "1 \<le> rat_of_int n" by simp
  have bl: "bitlen n \<le> 24" using assms(2) by (simp add: bitlen_le_iff_power)
  define k where "k = nat (24 - bitlen n)"
  have e: "float_exponent \<bar>rat_of_int n\<bar> - 23 = - int k"
    using n one bl by (simp add: float_exponent_def k_def)
  have ulp: "(2::rat) powi (float_exponent \<bar>rat_of_int n\<bar> - 23) = 1 / 2 ^ k"
    unfolding e by (simp add: power_int_minus field_simps)
  have "rat_of_int n / (1 / 2 ^ k) = rat_of_int (n * 2 ^ k)" by simp
  then have "round_half_even (rat_of_int n / (1 / 2 ^ k)) = n * 2 ^ k"
    by (simp only: round_half_even_of_int)
  then show ?thesis using False by (simp add: float_round_def Let_def ulp)
qed

lemma float_of_uint16_exact: "float_of_uint16 w = rat_of_int (uint w)"
proof -
  have "uint w < 2 ^ 16" using uint_bounded [of w] by simp
  then have "uint w < 2 ^ 24" by simp
  moreover have "0 \<le> uint w" by simp
  ultimately have "float_round (rat_of_int (uint w)) = rat_of_int (uint w)"
    by (intro float_round_int_exact)
  then show ?thesis by (simp only: float_of_uint16_def)
qed

lemma float_round_zero: "float_round 0 = 0"
  by (simp add: float_round_def)

text \<open>
  The exact sum \<open>S\<close> that \<^verbatim>\<open>low_pass_filter\<close> truncates, for \<open>alpha = 0.1f\<close>, with the two
  rounded products it adds.
\<close>

lemma low_pass_filter_sum:
  fixes c p :: uint16_t
  defines "a \<equiv> (13421773 / 134217728 :: rat)" and "b \<equiv> (15099494 / 16777216 :: rat)"
  defines "X \<equiv> float_round (a * rat_of_int (uint c))"
    and "Y \<equiv> float_round (b * rat_of_int (uint p))"
  shows "low_pass_filter c p (float_round (1 / 10)) = float_to_uint16 (float_round (X + Y))"
  unfolding low_pass_filter_def alpha_value one_minus_alpha_value float_of_uint16_exact
    float_add_def float_mul_def X_def Y_def a_def b_def
  by (rule refl)

lemma weighted_sample_range:
  fixes w :: uint16_t and k :: rat
  assumes "1 / 10 \<le> k" and "k \<le> 1"
  defines "x \<equiv> k * rat_of_int (uint w)"
  shows "x = 0 \<or> (1 / 16 \<le> x \<and> x \<le> 65536)"
    and "float_round x = 0 \<or> (1 / 16 \<le> float_round x \<and> float_round x \<le> 65536)"
proof -
  define n where "n = uint w"
  have n0: "0 \<le> n" and n1: "n \<le> 65535"
    using uint_bounded [of w] by (simp_all add: n_def)
  have xn: "x = k * rat_of_int n" by (simp add: x_def n_def)
  show r: "x = 0 \<or> (1 / 16 \<le> x \<and> x \<le> 65536)"
  proof (cases "n = 0")
    case True then show ?thesis by (simp add: xn)
  next
    case False
    then have "1 \<le> n" using n0 by simp
    then have one: "1 \<le> rat_of_int n" by simp
    have "rat_of_int n \<le> rat_of_int 65535" using n1 by (simp only: of_int_le_iff)
    then have top: "rat_of_int n \<le> 65535" by simp
    have "k * 1 \<le> k * rat_of_int n" using one assms(1) by (intro mult_left_mono) simp_all
    then have "k \<le> x" by (simp add: xn)
    then have lo: "1 / 16 \<le> x" using assms(1) by linarith
    have "k * rat_of_int n \<le> 1 * rat_of_int n"
      using assms(2) one by (intro mult_right_mono) simp_all
    then have "x \<le> rat_of_int n" by (simp add: xn)
    then have "x \<le> 65536" using top by linarith
    then show ?thesis using lo by simp
  qed
  show "float_round x = 0 \<or> (1 / 16 \<le> float_round x \<and> float_round x \<le> 65536)"
  proof (cases "x = 0")
    case True then show ?thesis by (simp add: float_round_zero)
  next
    case False
    then have x: "1 / 10 \<le> x" "x \<le> 65535"
    proof -
      have nz: "n \<noteq> 0" using False by (auto simp: xn)
      then have "1 \<le> n" using n0 by simp
      then have one: "1 \<le> rat_of_int n" by simp
      have "k * 1 \<le> k * rat_of_int n" using one assms(1) by (intro mult_left_mono) simp_all
      then have "k \<le> x" by (simp add: xn)
      then show "1 / 10 \<le> x" using assms(1) by linarith
      have "rat_of_int n \<le> rat_of_int 65535" using n1 by (simp only: of_int_le_iff)
      then have top: "rat_of_int n \<le> 65535" by simp
      have "k * rat_of_int n \<le> 1 * rat_of_int n"
        using assms(2) one by (intro mult_right_mono) simp_all
      then have "x \<le> rat_of_int n" by (simp add: xn)
      then show "x \<le> 65535" using top by linarith
    qed
    have x0: "0 \<le> x" using x(1) by simp
    have "(1 / 16 :: rat) \<le> 1 / 10 * (1 - 1 / 2 ^ 24)" by simp
    also have "\<dots> \<le> x * (1 - 1 / 2 ^ 24)"
      using x(1) by (intro mult_right_mono) simp_all
    also have "\<dots> \<le> float_round x" using x0 by (rule float_round_lower)
    finally have lo: "1 / 16 \<le> float_round x" .
    have "float_round x \<le> x * (1 + 1 / 2 ^ 24)" using x0 by (rule float_round_bounds(2))
    also have "\<dots> \<le> 65535 * (1 + 1 / 2 ^ 24)"
      using x(2) by (intro mult_right_mono) simp_all
    also have "\<dots> \<le> 65536" by simp
    finally have "float_round x \<le> 65536" .
    then show ?thesis using lo by simp
  qed
qed

text \<open>
  Every number that \<^verbatim>\<open>low_pass_filter\<close> rounds, for \<open>alpha = 0.1f\<close>, is 0 or lies between
  \<open>1 / 16\<close> and \<open>2 ^ 17\<close>: far inside the range of normal binary32 numbers, where
  \<^const>\<open>float_round\<close> is the binary32 rounding.
\<close>

lemma low_pass_filter_operands_normal:
  fixes c p :: uint16_t
  defines "a \<equiv> (13421773 / 134217728 :: rat)" and "b \<equiv> (15099494 / 16777216 :: rat)"
  defines "X \<equiv> float_round (a * rat_of_int (uint c))"
    and "Y \<equiv> float_round (b * rat_of_int (uint p))"
  shows "a * rat_of_int (uint c) = 0 \<or> (1 / 16 \<le> a * rat_of_int (uint c) \<and> a * rat_of_int (uint c) \<le> 65536)"
    and "b * rat_of_int (uint p) = 0 \<or> (1 / 16 \<le> b * rat_of_int (uint p) \<and> b * rat_of_int (uint p) \<le> 65536)"
    and "X + Y = 0 \<or> (1 / 16 \<le> X + Y \<and> X + Y \<le> 131072)"
proof -
  have a: "1 / 10 \<le> a" "a \<le> 1" and b: "1 / 10 \<le> b" "b \<le> 1"
    by (simp_all add: a_def b_def)
  show "a * rat_of_int (uint c) = 0 \<or> (1 / 16 \<le> a * rat_of_int (uint c) \<and> a * rat_of_int (uint c) \<le> 65536)"
    using a by (rule weighted_sample_range(1))
  show "b * rat_of_int (uint p) = 0 \<or> (1 / 16 \<le> b * rat_of_int (uint p) \<and> b * rat_of_int (uint p) \<le> 65536)"
    using b by (rule weighted_sample_range(1))
  have X: "X = 0 \<or> (1 / 16 \<le> X \<and> X \<le> 65536)"
    unfolding X_def using a by (rule weighted_sample_range(2))
  have Y: "Y = 0 \<or> (1 / 16 \<le> Y \<and> Y \<le> 65536)"
    unfolding Y_def using b by (rule weighted_sample_range(2))
  show "X + Y = 0 \<or> (1 / 16 \<le> X + Y \<and> X + Y \<le> 131072)"
    using X Y by auto
qed

text \<open>
  The stored value is the ideal \<open>0.1 * raw + 0.9 * previous\<close> up to the truncation and
  a rounding error below \<open>1 / 50\<close>.
\<close>

lemma low_pass_filter_near_ideal:
  assumes "low_pass_filter c p (float_round (1 / 10)) = Inr v"
  shows "rat_of_int (uint v) \<le> (rat_of_int (uint c) + 9 * rat_of_int (uint p)) / 10 + 1 / 50"
    and "(rat_of_int (uint c) + 9 * rat_of_int (uint p)) / 10 - 1 - 1 / 50 < rat_of_int (uint v)"
proof -
  define a :: rat where "a = 13421773 / 134217728"
  define b :: rat where "b = 15099494 / 16777216"
  define u :: rat where "u = 1 + 1 / 2 ^ 24"
  define l :: rat where "l = 1 - 1 / 2 ^ 24"
  define x where "x = rat_of_int (uint c)"
  define y where "y = rat_of_int (uint p)"
  define X where "X = float_round (a * x)"
  define Y where "Y = float_round (b * y)"
  define S where "S = float_round (X + Y)"
  have "uint c \<le> 65535" "uint p \<le> 65535"
    using uint_bounded [of c] uint_bounded [of p] by simp_all
  then have "rat_of_int (uint c) \<le> rat_of_int 65535" "rat_of_int (uint p) \<le> rat_of_int 65535"
    by (simp_all only: of_int_le_iff)
  then have x1: "x \<le> 65535" and y1: "y \<le> 65535" by (simp_all add: x_def y_def)
  have "0 \<le> uint c" "0 \<le> uint p" by simp_all
  then have "rat_of_int 0 \<le> rat_of_int (uint c)" "rat_of_int 0 \<le> rat_of_int (uint p)"
    by (simp_all only: of_int_le_iff)
  then have x0: "0 \<le> x" and y0: "0 \<le> y" by (simp_all add: x_def y_def)
  have ax: "0 \<le> a * x" and by': "0 \<le> b * y" using x0 y0 by (simp_all add: a_def b_def)
  have X0: "0 \<le> X" and Y0: "0 \<le> Y"
    using float_round_bounds(1) [OF ax] float_round_bounds(1) [OF by'] by (simp_all add: X_def Y_def)
  have XY: "0 \<le> X + Y" using X0 Y0 by simp
  have Xu: "X \<le> a * x * u" using float_round_bounds(2) [OF ax] by (simp add: X_def u_def)
  have Yu: "Y \<le> b * y * u" using float_round_bounds(2) [OF by'] by (simp add: Y_def u_def)
  have Xl: "a * x * l \<le> X" using float_round_lower [OF ax] by (simp add: X_def l_def)
  have Yl: "b * y * l \<le> Y" using float_round_lower [OF by'] by (simp add: Y_def l_def)
  have Su: "S \<le> (X + Y) * u" using float_round_bounds(2) [OF XY] by (simp add: S_def u_def)
  have Sl: "(X + Y) * l \<le> S" using float_round_lower [OF XY] by (simp add: S_def l_def)
  have S0: "0 \<le> S" using float_round_bounds(1) [OF XY] by (simp add: S_def)
  have u0: "0 \<le> u" and l0: "0 \<le> l" by (simp_all add: u_def l_def)
  have "(X + Y) * u \<le> (a * x * u + b * y * u) * u"
    using Xu Yu u0 by (intro mult_right_mono add_mono)
  also have "\<dots> = (a * (u * u)) * x + (b * (u * u)) * y" by (simp add: algebra_simps)
  also have "\<dots> \<le> (1 / 10 + 1 / 10000000) * x + (9 / 10 + 1 / 10000000) * y"
    using x0 y0 by (intro add_mono mult_right_mono) (simp_all add: a_def b_def u_def)
  finally have upper: "S \<le> (1 / 10 + 1 / 10000000) * x + (9 / 10 + 1 / 10000000) * y"
    using Su by linarith
  have "(1 / 10 - 1 / 10000000) * x + (9 / 10 - 2 / 10000000) * y
        \<le> (a * (l * l)) * x + (b * (l * l)) * y"
    using x0 y0 by (intro add_mono mult_right_mono) (simp_all add: a_def b_def l_def)
  also have "\<dots> = (a * x * l + b * y * l) * l" by (simp add: algebra_simps)
  also have "\<dots> \<le> (X + Y) * l"
    using Xl Yl l0 by (intro mult_right_mono add_mono)
  finally have lower: "(1 / 10 - 1 / 10000000) * x + (9 / 10 - 2 / 10000000) * y \<le> S"
    using Sl by linarith
  have run: "float_to_uint16 S = Inr v"
    using assms low_pass_filter_sum [of c p]
    by (simp add: S_def X_def Y_def a_def b_def x_def y_def)
  then have v: "v = word_of_int \<lfloor>S\<rfloor>" and t: "0 \<le> \<lfloor>S\<rfloor>" "\<lfloor>S\<rfloor> < 65536"
    using S0 by (auto simp: float_to_uint16_def Let_def split: if_splits)
  have "uint v = \<lfloor>S\<rfloor> mod 2 ^ 16" by (simp add: v uint_word_of_int)
  also have "\<dots> = \<lfloor>S\<rfloor>" using t by simp
  finally have uv: "rat_of_int (uint v) = rat_of_int \<lfloor>S\<rfloor>" by simp
  have fl: "rat_of_int \<lfloor>S\<rfloor> \<le> S" "S < rat_of_int \<lfloor>S\<rfloor> + 1" by linarith+
  have "rat_of_int \<lfloor>S\<rfloor> \<le> S" by (rule fl(1))
  also note upper
  also have "(1 / 10 + 1 / 10000000) * x + (9 / 10 + 1 / 10000000) * y \<le> (x + 9 * y) / 10 + 1 / 50"
    using x1 y1 by (simp add: field_simps)
  finally show "rat_of_int (uint v) \<le> (rat_of_int (uint c) + 9 * rat_of_int (uint p)) / 10 + 1 / 50"
    unfolding uv x_def y_def .
  have "(x + 9 * y) / 10 - 1 / 50 \<le> (1 / 10 - 1 / 10000000) * x + (9 / 10 - 2 / 10000000) * y"
    using x1 y1 x0 y0 by (simp add: field_simps)
  also note lower
  also note fl(2)
  finally have "(x + 9 * y) / 10 - 1 / 50 - 1 < rat_of_int \<lfloor>S\<rfloor>" by simp
  then show "(rat_of_int (uint c) + 9 * rat_of_int (uint p)) / 10 - 1 - 1 / 50 < rat_of_int (uint v)"
    unfolding uv x_def y_def by simp
qed

text \<open>The stored value is exactly the truncated binary32 evaluation of the formula.\<close>

lemma low_pass_filter_exact:
  assumes "low_pass_filter c p (float_round (1 / 10)) = Inr v"
  shows "uint v =
     \<lfloor>float_round
        (float_round (float_round (1 / 10) * rat_of_int (uint c))
         + float_round (float_round (1 - float_round (1 / 10)) * rat_of_int (uint p)))\<rfloor>"
proof -
  define a :: rat where "a = 13421773 / 134217728"
  define b :: rat where "b = 15099494 / 16777216"
  define X where "X = float_round (a * rat_of_int (uint c))"
  define Y where "Y = float_round (b * rat_of_int (uint p))"
  define S where "S = float_round (X + Y)"
  have b_eq: "float_round (1 - a) = b"
    using one_minus_alpha_value by (simp only: float_sub_def a_def b_def)
  have "0 \<le> uint c" "0 \<le> uint p" by simp_all
  then have "rat_of_int 0 \<le> rat_of_int (uint c)" "rat_of_int 0 \<le> rat_of_int (uint p)"
    by (simp_all only: of_int_le_iff)
  then have ax: "0 \<le> a * rat_of_int (uint c)" and bp: "0 \<le> b * rat_of_int (uint p)"
    by (simp_all add: a_def b_def)
  have "0 \<le> X" "0 \<le> Y"
    using float_round_bounds(1) [OF ax] float_round_bounds(1) [OF bp] by (simp_all add: X_def Y_def)
  then have XY: "0 \<le> X + Y" by simp
  have S0: "0 \<le> S" using float_round_bounds(1) [OF XY] by (simp add: S_def)
  have run: "float_to_uint16 S = Inr v"
    using assms low_pass_filter_sum [of c p]
    by (simp add: S_def X_def Y_def a_def b_def)
  then have v: "v = word_of_int \<lfloor>S\<rfloor>" and t: "0 \<le> \<lfloor>S\<rfloor>" "\<lfloor>S\<rfloor> < 65536"
    using S0 by (auto simp: float_to_uint16_def Let_def split: if_splits)
  have "uint v = \<lfloor>S\<rfloor> mod 2 ^ 16" by (simp add: v uint_word_of_int)
  also have "\<dots> = \<lfloor>S\<rfloor>" using t by simp
  finally show ?thesis
    unfolding S_def X_def Y_def alpha_value b_eq [unfolded a_def] a_def b_def .
qed

section \<open>Properties of \<^verbatim>\<open>grava_audio\<close>\<close>

lemma adc_pending_Suc:
  "adc_pending s (Suc n) =
   adc_input s (adc_reads s) # adc_pending (s\<lparr>adc_reads := Suc (adc_reads s)\<rparr>) n"
proof -
  have "[0..<Suc n] = 0 # map Suc [0..<n]"
    by (simp add: upt_conv_Cons map_Suc_upt del: upt_Suc)
  then show ?thesis by (simp add: adc_pending_def comp_def del: upt_Suc)
qed

lemma adc_pending_cong:
  "adc_input s' = adc_input s \<Longrightarrow> adc_reads s' = adc_reads s \<Longrightarrow>
   adc_pending s' n = adc_pending s n"
  by (simp add: adc_pending_def)

lemma grava_loop_capture:
  "capture alpha prev (adc_pending s n) = Inr ys \<Longrightarrow> i + n = N \<Longrightarrow>
   length (audio_buffer s) = N \<Longrightarrow>
   grava_loop N alpha i prev s =
     Inr (s\<lparr>audio_buffer := take i (audio_buffer s) @ ys,
            adc_reads := adc_reads s + n,
            trace := trace s @ replicate n (SleepUs (1000000 div SAMPLE_RATE))\<rparr>)"
proof (induction n arbitrary: i prev s ys)
  case 0
  then show ?case
    by (subst grava_loop.simps) (simp add: adc_pending_def)
next
  case (Suc n)
  let ?x = "adc_input s (adc_reads s)"
  let ?rd = "s\<lparr>adc_reads := Suc (adc_reads s)\<rparr>"
  from Suc.prems(1) obtain y rest where
    y: "low_pass_filter ?x prev alpha = Inr y" and
    rest: "capture alpha y (adc_pending ?rd n) = Inr rest" and
    ys: "ys = y # rest"
    by (auto simp: adc_pending_Suc split: sum.splits)
  let ?nxt = "sleep_us (1000000 div SAMPLE_RATE) (?rd\<lparr>audio_buffer := (audio_buffer ?rd)[i := y]\<rparr>)"
  have i: "i < N" using Suc.prems(2) by simp
  have step: "grava_loop N alpha i prev s = grava_loop N alpha (Suc i) y ?nxt"
    using i y Suc.prems(3) by (subst grava_loop.simps) (simp add: adc_read_def)
  have pend: "adc_pending ?nxt n = adc_pending ?rd n"
    by (rule adc_pending_cong) (simp_all add: sleep_us_def)
  have "grava_loop N alpha (Suc i) y ?nxt =
     Inr (?nxt\<lparr>audio_buffer := take (Suc i) (audio_buffer ?nxt) @ rest,
            adc_reads := adc_reads ?nxt + n,
            trace := trace ?nxt @ replicate n (SleepUs (1000000 div SAMPLE_RATE))\<rparr>)"
    using rest Suc.prems(2,3) pend by (intro Suc.IH) (simp_all add: sleep_us_def)
  also have "take (Suc i) (audio_buffer ?nxt) = take i (audio_buffer s) @ [y]"
    using i Suc.prems(3) by (simp add: sleep_us_def take_Suc_conv_app_nth)
  finally show ?case
    using step by (simp add: ys sleep_us_def replicate_app_Cons_same)
qed

lemma capture_nth:
  "capture alpha prev xs = Inr ys \<Longrightarrow>
   length ys = length xs \<and>
   (\<forall>i < length xs.
      low_pass_filter (xs ! i) (if i = 0 then prev else ys ! (i - 1)) alpha = Inr (ys ! i))"
proof (induction xs arbitrary: prev ys)
  case Nil
  then show ?case by simp
next
  case (Cons x xs)
  from Cons.prems obtain y rest where
    y: "low_pass_filter x prev alpha = Inr y" and
    rest: "capture alpha y xs = Inr rest" and
    ys: "ys = y # rest"
    by (auto split: sum.splits)
  have IH: "length rest = length xs"
    "\<And>i. i < length xs \<Longrightarrow>
       low_pass_filter (xs ! i) (if i = 0 then y else rest ! (i - 1)) alpha = Inr (rest ! i)"
    using Cons.IH [OF rest] by simp_all
  show ?case
  proof (intro conjI allI impI)
    show "length ys = length (x # xs)" using IH(1) ys by simp
  next
    fix i assume "i < length (x # xs)"
    show "low_pass_filter ((x # xs) ! i) (if i = 0 then prev else ys ! (i - 1)) alpha
          = Inr (ys ! i)"
    proof (cases i)
      case 0
      then show ?thesis using y ys by simp
    next
      case (Suc j)
      then have j: "j < length xs" using \<open>i < length (x # xs)\<close> by simp
      show ?thesis using IH(2) [OF j] Suc ys by (cases j) simp_all
    qed
  qed
qed

lemma capture_bounded:
  "\<forall>x \<in> set xs. x \<le> B \<Longrightarrow> prev \<le> B \<Longrightarrow>
   \<exists>ys. capture (float_round (1 / 10)) prev xs = Inr ys \<and> (\<forall>y \<in> set ys. y \<le> B)"
proof (induction xs arbitrary: prev)
  case Nil
  then show ?case by simp
next
  case (Cons x xs)
  obtain y where y: "low_pass_filter x prev (float_round (1 / 10)) = Inr y" "y \<le> max x prev"
    using low_pass_filter_bound [of x prev] by blast
  have "y \<le> B" using y(2) Cons.prems by (simp add: max_def split: if_splits)
  moreover have "\<forall>x \<in> set xs. x \<le> B" using Cons.prems(1) by simp
  ultimately obtain rest where
    rest: "capture (float_round (1 / 10)) y xs = Inr rest" "\<forall>y \<in> set rest. y \<le> B"
    using Cons.IH [of y] by blast
  show ?case using y(1) rest \<open>y \<le> B\<close> by simp
qed

lemma capture_total:
  "\<exists>ys. capture (float_round (1 / 10)) prev xs = Inr ys"
proof -
  have "\<forall>x \<in> set xs. x \<le> (- 1 :: uint16_t)" "prev \<le> (- 1 :: uint16_t)" by simp_all
  from capture_bounded [OF this] show ?thesis by blast
qed

lemma normalize_audio_total:
  "\<exists>out. normalize_audio buffer (int (length buffer)) = Inr out
     \<and> length out = length buffer \<and> (\<forall>v \<in> set out. v \<le> 1023)"
proof (cases "\<forall>v \<in> set buffer. v = 0")
  case True
  then have "normalize_audio buffer (int (length buffer)) = Inr buffer"
    by (simp add: normalize_audio_def normalize_max_eq fold_max_all_zero)
  then show ?thesis using True by auto
next
  case False
  then obtain v where v: "v \<in> set buffer" "v \<noteq> 0" by blast
  then have ne: "buffer \<noteq> []" by auto
  let ?m = "Max (set buffer)"
  have "v \<le> ?m" using v(1) by simp
  then have m0: "?m \<noteq> 0" using v(2) by (metis word_le_0_iff)
  have le: "w \<le> ?m" if "w \<in> set buffer" for w using that by simp
  have "normalize_audio buffer (int (length buffer)) = Inr (map (scaled ?m) buffer)"
    using ne m0 by (rule normalize_audio_nonsilent)
  moreover have "\<forall>w \<in> set (map (scaled ?m) buffer). w \<le> 1023"
    using m0 le by (auto simp: scaled_le)
  ultimately show ?thesis by simp
qed

lemma grava_audio_run:
  assumes "length (audio_buffer s) = N"
  shows "\<exists>filtered out.
           capture (float_round (1 / 10)) 0 (adc_pending s N) = Inr filtered
         \<and> length filtered = N
         \<and> grava_loop N (float_round (1 / 10)) 0 0 (gpio_put LED_RED_PIN True s)
             = Inr (s\<lparr>audio_buffer := filtered,
                      adc_reads := adc_reads s + N,
                      trace := trace s @ [GpioPut LED_RED_PIN True]
                                 @ replicate N (SleepUs (1000000 div SAMPLE_RATE))\<rparr>)
         \<and> normalize_audio filtered (int N) = Inr out
         \<and> length out = N
         \<and> (\<forall>v \<in> set out. v \<le> 1023)
         \<and> grava_audio N s
             = Inr (s\<lparr>audio_buffer := out,
                      adc_reads := adc_reads s + N,
                      trace := trace s @ [GpioPut LED_RED_PIN True]
                                 @ replicate N (SleepUs (1000000 div SAMPLE_RATE))
                                 @ [GpioPut LED_RED_PIN False]\<rparr>)"
proof -
  let ?alpha = "float_round (1 / 10)"
  let ?red = "gpio_put LED_RED_PIN True s"
  obtain filtered where cap: "capture ?alpha 0 (adc_pending s N) = Inr filtered"
    using capture_total by blast
  have len: "length filtered = N"
    using capture_nth [OF cap] by (simp add: adc_pending_def)
  have pend: "adc_pending ?red N = adc_pending s N"
    by (rule adc_pending_cong) (simp_all add: gpio_put_def)
  have cap0: "capture ?alpha 0 (adc_pending ?red N) = Inr filtered"
    using cap by (simp only: pend)
  have loop: "grava_loop N ?alpha 0 0 ?red
      = Inr (s\<lparr>audio_buffer := filtered,
               adc_reads := adc_reads s + N,
               trace := trace s @ [GpioPut LED_RED_PIN True]
                          @ replicate N (SleepUs (1000000 div SAMPLE_RATE))\<rparr>)"
    using grava_loop_capture [OF cap0, of 0 N] assms
    by (simp add: gpio_put_def)
  obtain out where out: "normalize_audio filtered (int N) = Inr out" "length out = N"
      "\<forall>v \<in> set out. v \<le> 1023"
    using normalize_audio_total [of filtered] len by auto
  have "grava_audio N s
      = Inr (s\<lparr>audio_buffer := out,
               adc_reads := adc_reads s + N,
               trace := trace s @ [GpioPut LED_RED_PIN True]
                          @ replicate N (SleepUs (1000000 div SAMPLE_RATE))
                          @ [GpioPut LED_RED_PIN False]\<rparr>)"
    by (simp add: grava_audio_def Let_def loop out(1)) (simp add: gpio_put_def)
  then show ?thesis using cap len loop out by blast
qed

text \<open>
  Claim C2. Started with the buffer of \<open>N\<close> entries, \<^verbatim>\<open>grava_audio\<close> returns normally
  after exactly \<open>N\<close> iterations: it has read \<open>N\<close> raw samples and slept \<open>N\<close> times.
  The buffer the loop leaves holds \<open>N\<close> entries \<open>filtered\<close>. With \<open>raw\<close> the \<open>i\<close>-th
  raw sample and \<open>previous\<close> the previous stored entry (0 for \<open>i = 0\<close>), entry \<open>i\<close> is
  the result of \<^verbatim>\<open>low_pass_filter\<close>; its value is the integral part of
  \<open>alpha * raw + (1 - alpha) * previous\<close> evaluated in binary32 with \<open>alpha = 0.1f\<close>
  (each product, the difference and the sum rounded), and it differs from the ideal
  \<open>0.1 * raw + 0.9 * previous\<close> by the truncation and less than \<open>1 / 50\<close>. The final
  buffer is \<^verbatim>\<open>normalize_audio\<close> of that buffer: normalisation runs unconditionally after
  the loop.
\<close>

theorem grava_audio_capture:
  assumes "length (audio_buffer s) = N"
  shows "\<exists>filtered out.
           length filtered = N
         \<and> (\<forall>i < N.
               low_pass_filter (adc_input s (adc_reads s + i))
                 (if i = 0 then 0 else filtered ! (i - 1)) (float_round (1 / 10))
               = Inr (filtered ! i)
             \<and> uint (filtered ! i) =
                 \<lfloor>float_round
                    (float_round (float_round (1 / 10)
                                  * rat_of_int (uint (adc_input s (adc_reads s + i))))
                     + float_round (float_round (1 - float_round (1 / 10))
                                    * rat_of_int (uint (if i = 0 then 0 else filtered ! (i - 1)))))\<rfloor>
             \<and> rat_of_int (uint (filtered ! i))
                 \<le> (rat_of_int (uint (adc_input s (adc_reads s + i)))
                     + 9 * rat_of_int (uint (if i = 0 then 0 else filtered ! (i - 1)))) / 10
                    + 1 / 50
             \<and> (rat_of_int (uint (adc_input s (adc_reads s + i)))
                 + 9 * rat_of_int (uint (if i = 0 then 0 else filtered ! (i - 1)))) / 10
                - 1 - 1 / 50
                 < rat_of_int (uint (filtered ! i)))
         \<and> map_sum id audio_buffer
              (grava_loop N (float_round (1 / 10)) 0 0 (gpio_put LED_RED_PIN True s))
             = Inr filtered
         \<and> normalize_audio filtered (int N) = Inr out
         \<and> grava_audio N s
             = Inr (s\<lparr>audio_buffer := out,
                      adc_reads := adc_reads s + N,
                      trace := trace s @ [GpioPut LED_RED_PIN True]
                                 @ replicate N (SleepUs (1000000 div SAMPLE_RATE))
                                 @ [GpioPut LED_RED_PIN False]\<rparr>)"
proof -
  obtain filtered out where run:
    "capture (float_round (1 / 10)) 0 (adc_pending s N) = Inr filtered"
    "length filtered = N"
    "grava_loop N (float_round (1 / 10)) 0 0 (gpio_put LED_RED_PIN True s)
       = Inr (s\<lparr>audio_buffer := filtered,
                adc_reads := adc_reads s + N,
                trace := trace s @ [GpioPut LED_RED_PIN True]
                           @ replicate N (SleepUs (1000000 div SAMPLE_RATE))\<rparr>)"
    "normalize_audio filtered (int N) = Inr out"
    "grava_audio N s
       = Inr (s\<lparr>audio_buffer := out,
                adc_reads := adc_reads s + N,
                trace := trace s @ [GpioPut LED_RED_PIN True]
                           @ replicate N (SleepUs (1000000 div SAMPLE_RATE))
                           @ [GpioPut LED_RED_PIN False]\<rparr>)"
    using grava_audio_run [OF assms] by blast
  have step: "low_pass_filter (adc_input s (adc_reads s + i))
                (if i = 0 then 0 else filtered ! (i - 1)) (float_round (1 / 10))
              = Inr (filtered ! i)" if "i < N" for i
    using capture_nth [OF run(1)] that by (simp add: adc_pending_def)
  have "\<forall>i < N.
          low_pass_filter (adc_input s (adc_reads s + i))
            (if i = 0 then 0 else filtered ! (i - 1)) (float_round (1 / 10))
          = Inr (filtered ! i)
        \<and> uint (filtered ! i) =
            \<lfloor>float_round
               (float_round (float_round (1 / 10)
                             * rat_of_int (uint (adc_input s (adc_reads s + i))))
                + float_round (float_round (1 - float_round (1 / 10))
                               * rat_of_int (uint (if i = 0 then 0 else filtered ! (i - 1)))))\<rfloor>
        \<and> rat_of_int (uint (filtered ! i))
            \<le> (rat_of_int (uint (adc_input s (adc_reads s + i)))
                + 9 * rat_of_int (uint (if i = 0 then 0 else filtered ! (i - 1)))) / 10
               + 1 / 50
        \<and> (rat_of_int (uint (adc_input s (adc_reads s + i)))
            + 9 * rat_of_int (uint (if i = 0 then 0 else filtered ! (i - 1)))) / 10
           - 1 - 1 / 50
            < rat_of_int (uint (filtered ! i))"
  proof (intro allI impI conjI)
    fix i assume i: "i < N"
    show "low_pass_filter (adc_input s (adc_reads s + i))
            (if i = 0 then 0 else filtered ! (i - 1)) (float_round (1 / 10))
          = Inr (filtered ! i)"
      by (rule step [OF i])
    show "uint (filtered ! i) =
            \<lfloor>float_round
               (float_round (float_round (1 / 10)
                             * rat_of_int (uint (adc_input s (adc_reads s + i))))
                + float_round (float_round (1 - float_round (1 / 10))
                               * rat_of_int (uint (if i = 0 then 0 else filtered ! (i - 1)))))\<rfloor>"
      by (rule low_pass_filter_exact [OF step [OF i]])
    show "rat_of_int (uint (filtered ! i))
            \<le> (rat_of_int (uint (adc_input s (adc_reads s + i)))
                + 9 * rat_of_int (uint (if i = 0 then 0 else filtered ! (i - 1)))) / 10
               + 1 / 50"
      by (rule low_pass_filter_near_ideal(1) [OF step [OF i]])
    show "(rat_of_int (uint (adc_input s (adc_reads s + i)))
            + 9 * rat_of_int (uint (if i = 0 then 0 else filtered ! (i - 1)))) / 10
           - 1 - 1 / 50
            < rat_of_int (uint (filtered ! i))"
      by (rule low_pass_filter_near_ideal(2) [OF step [OF i]])
  qed
  then have rec: "\<forall>i < N.
          low_pass_filter (adc_input s (adc_reads s + i))
            (if i = 0 then 0 else filtered ! (i - 1)) (float_round (1 / 10))
          = Inr (filtered ! i)
        \<and> uint (filtered ! i) =
            \<lfloor>float_round
               (float_round (float_round (1 / 10)
                             * rat_of_int (uint (adc_input s (adc_reads s + i))))
                + float_round (float_round (1 - float_round (1 / 10))
                               * rat_of_int (uint (if i = 0 then 0 else filtered ! (i - 1)))))\<rfloor>
        \<and> rat_of_int (uint (filtered ! i))
            \<le> (rat_of_int (uint (adc_input s (adc_reads s + i)))
                + 9 * rat_of_int (uint (if i = 0 then 0 else filtered ! (i - 1)))) / 10
               + 1 / 50
        \<and> (rat_of_int (uint (adc_input s (adc_reads s + i)))
            + 9 * rat_of_int (uint (if i = 0 then 0 else filtered ! (i - 1)))) / 10
           - 1 - 1 / 50
            < rat_of_int (uint (filtered ! i))" .
  have loopbuf: "map_sum id audio_buffer
      (grava_loop N (float_round (1 / 10)) 0 0 (gpio_put LED_RED_PIN True s)) = Inr filtered"
    by (simp add: run(3))
  show ?thesis
    by (intro exI [of _ filtered] exI [of _ out] conjI)
       (rule run(2) rec loopbuf run(4) run(5))+
qed

text \<open>
  Claim C5. After \<^verbatim>\<open>grava_audio\<close> the buffer holds exactly \<open>N\<close> entries and each is
  at most 1023, whatever readings the ADC delivers; the function always returns normally.
\<close>

theorem grava_audio_range:
  assumes "length (audio_buffer s) = N"
  shows "\<exists>s'. grava_audio N s = Inr s' \<and> length (audio_buffer s') = N
             \<and> (\<forall>v \<in> set (audio_buffer s'). v \<le> 1023)"
  using grava_audio_run [OF assms] by auto

text \<open>
  Claim C7, as amended. The values the capture loop stores, before normalisation, are
  bounded by the largest raw reading, not by 1023: if every raw reading is at most
  \<open>adc_max\<close> then so is every stored value.
\<close>

theorem capture_loop_bounded:
  assumes "length (audio_buffer s) = N"
    and "\<forall>k < N. adc_input s (adc_reads s + k) \<le> adc_max"
  shows "\<exists>s'. grava_loop N (float_round (1 / 10)) 0 0 s = Inr s'
             \<and> length (audio_buffer s') = N
             \<and> (\<forall>v \<in> set (audio_buffer s'). v \<le> adc_max)"
proof -
  have "\<forall>x \<in> set (adc_pending s N). x \<le> adc_max"
    using assms(2) by (auto simp: adc_pending_def)
  then obtain ys where ys: "capture (float_round (1 / 10)) 0 (adc_pending s N) = Inr ys"
      "\<forall>y \<in> set ys. y \<le> adc_max"
    using capture_bounded [of "adc_pending s N" adc_max 0] by auto
  have "length ys = N" using capture_nth [OF ys(1)] by (simp add: adc_pending_def)
  then show ?thesis
    using grava_loop_capture [OF ys(1), of 0 N] assms(1) ys(2) by simp
qed

lemma adc_pending_reset:
  "adc_pending (reset_state N readings) (length readings) = readings"
  unfolding adc_pending_def reset_state_def adc_of_list_def
  by (intro nth_equalityI) simp_all

lemma capture_example: "capture (float_round (1 / 10)) 0 [100, 100, 100] = Inr [10, 19, 27]"
  by code_simp

lemma capture_full_scale_adc:
  "capture (float_round (1 / 10)) 0 [4095, 4095, 4095] = Inr [409, 777, 1108]"
  by code_simp

lemma normalize_example: "normalize_audio [10, 19, 27] 3 = Inr [378, 719, 1023]"
  by code_simp

theorem grava_audio_capture_witness:
  "map_sum id audio_buffer
     (grava_loop 3 (float_round (1 / 10)) 0 0
        (gpio_put LED_RED_PIN True (reset_state 3 [100, 100, 100])))
   = Inr [10, 19, 27]
   \<and> grava_audio 3 (reset_state 3 [100, 100, 100])
     = Inr \<lparr>audio_buffer = [378, 719, 1023], adc_input = adc_of_list [100, 100, 100],
            adc_reads = 3,
            trace = [GpioPut LED_RED_PIN True, SleepUs 62, SleepUs 62, SleepUs 62,
                     GpioPut LED_RED_PIN False]\<rparr>"
proof -
  let ?rst = "reset_state 3 [100, 100, 100]"
  have len: "length (audio_buffer ?rst) = 3" by (simp add: reset_state_def)
  obtain filtered out where run:
    "length filtered = 3"
    "\<forall>i < 3.
        low_pass_filter (adc_input ?rst (adc_reads ?rst + i))
          (if i = 0 then 0 else filtered ! (i - 1)) (float_round (1 / 10))
        = Inr (filtered ! i)
      \<and> uint (filtered ! i) =
          \<lfloor>float_round
             (float_round (float_round (1 / 10)
                           * rat_of_int (uint (adc_input ?rst (adc_reads ?rst + i))))
              + float_round (float_round (1 - float_round (1 / 10))
                             * rat_of_int (uint (if i = 0 then 0 else filtered ! (i - 1)))))\<rfloor>
      \<and> rat_of_int (uint (filtered ! i))
          \<le> (rat_of_int (uint (adc_input ?rst (adc_reads ?rst + i)))
              + 9 * rat_of_int (uint (if i = 0 then 0 else filtered ! (i - 1)))) / 10
             + 1 / 50
      \<and> (rat_of_int (uint (adc_input ?rst (adc_reads ?rst + i)))
          + 9 * rat_of_int (uint (if i = 0 then 0 else filtered ! (i - 1)))) / 10
         - 1 - 1 / 50
          < rat_of_int (uint (filtered ! i))"
    "map_sum id audio_buffer
       (grava_loop 3 (float_round (1 / 10)) 0 0 (gpio_put LED_RED_PIN True ?rst))
     = Inr filtered"
    "normalize_audio filtered (int 3) = Inr out"
    "grava_audio 3 ?rst
       = Inr (?rst\<lparr>audio_buffer := out,
                 adc_reads := adc_reads ?rst + 3,
                 trace := trace ?rst @ [GpioPut LED_RED_PIN True]
                            @ replicate 3 (SleepUs (1000000 div SAMPLE_RATE))
                            @ [GpioPut LED_RED_PIN False]\<rparr>)"
    using grava_audio_capture [OF len] by blast
  have e0: "\<lfloor>float_round
               (float_round (float_round (1 / 10) * rat_of_int (uint (100 :: uint16_t)))
                + float_round (float_round (1 - float_round (1 / 10))
                               * rat_of_int (uint (0 :: uint16_t))))\<rfloor> = 10"
    by code_simp
  have e1: "\<lfloor>float_round
               (float_round (float_round (1 / 10) * rat_of_int (uint (100 :: uint16_t)))
                + float_round (float_round (1 - float_round (1 / 10))
                               * rat_of_int (uint (10 :: uint16_t))))\<rfloor> = 19"
    by code_simp
  have e2: "\<lfloor>float_round
               (float_round (float_round (1 / 10) * rat_of_int (uint (100 :: uint16_t)))
                + float_round (float_round (1 - float_round (1 / 10))
                               * rat_of_int (uint (19 :: uint16_t))))\<rfloor> = 27"
    by code_simp
  have r0: "adc_input ?rst (adc_reads ?rst + 0) = 100"
    and r1: "adc_input ?rst (adc_reads ?rst + 1) = 100"
    and r2: "adc_input ?rst (adc_reads ?rst + 2) = 100"
    by (simp_all add: reset_state_def adc_of_list_def)
  have lt: "(0::nat) < 3" "(1::nat) < 3" "(2::nat) < 3" by simp_all
  have ix: "(1::nat) \<noteq> 0" "(2::nat) \<noteq> 0" "(1::nat) - 1 = 0" "(2::nat) - 1 = 1" by simp_all
  note k0 = run(2) [rule_format, OF lt(1), THEN conjunct2, THEN conjunct1]
  note k1 = run(2) [rule_format, OF lt(2), THEN conjunct2, THEN conjunct1]
  note k2 = run(2) [rule_format, OF lt(3), THEN conjunct2, THEN conjunct1]
  have "uint (filtered ! 0) = 10"
    using k0 by (simp only: r0 HOL.simp_thms if_True e0)
  then have "uint (filtered ! 0) = uint (10 :: uint16_t)" by simp
  then have f0: "filtered ! 0 = 10" by (simp only: word_uint_eq_iff)
  have "uint (filtered ! 1) = 19"
    using k1 by (simp only: r1 ix HOL.simp_thms if_False f0 e1)
  then have "uint (filtered ! 1) = uint (19 :: uint16_t)" by simp
  then have f1: "filtered ! 1 = 19" by (simp only: word_uint_eq_iff)
  have "uint (filtered ! 2) = 27"
    using k2 by (simp only: r2 ix HOL.simp_thms if_False f1 e2)
  then have "uint (filtered ! 2) = uint (27 :: uint16_t)" by simp
  then have f2: "filtered ! 2 = 27" by (simp only: word_uint_eq_iff)
  have filtered: "filtered = [10, 19, 27]"
    using run(1) f0 f1 f2
    by (intro nth_equalityI) (auto simp: less_Suc_eq numeral_3_eq_3 numeral_2_eq_2)
  have "out = [378, 719, 1023]"
    using run(4) by (simp add: filtered normalize_example)
  then show ?thesis
    using run(3,5) by (simp add: filtered reset_state_def SAMPLE_RATE_def numeral_3_eq_3)
qed

theorem grava_audio_range_witness:
  "\<exists>s'. grava_audio 3 (reset_state 3 [100, 100, 100]) = Inr s'
        \<and> length (audio_buffer s') = 3
        \<and> audio_buffer s' ! 0 \<le> 1023 \<and> audio_buffer s' ! 1 \<le> 1023
        \<and> audio_buffer s' ! 2 \<le> 1023"
proof -
  have len: "length (audio_buffer (reset_state 3 [100, 100, 100])) = 3"
    by (simp add: reset_state_def)
  obtain s' where s': "grava_audio 3 (reset_state 3 [100, 100, 100]) = Inr s'"
      "length (audio_buffer s') = 3" "\<forall>v \<in> set (audio_buffer s'). v \<le> 1023"
    using grava_audio_range [OF len] by blast
  have "audio_buffer s' ! 0 \<le> 1023" "audio_buffer s' ! 1 \<le> 1023" "audio_buffer s' ! 2 \<le> 1023"
    using s'(2,3) by (simp_all add: all_set_conv_all_nth)
  then show ?thesis using s'(1,2) by blast
qed

theorem capture_loop_bounded_witness:
  "\<exists>s'. grava_loop 3 (float_round (1 / 10)) 0 0 (reset_state 3 [4095, 4095, 4095]) = Inr s'
        \<and> length (audio_buffer s') = 3
        \<and> audio_buffer s' ! 0 \<le> 4095 \<and> audio_buffer s' ! 1 \<le> 4095
        \<and> audio_buffer s' ! 2 \<le> 4095"
proof -
  let ?s = "reset_state 3 [4095, 4095, 4095]"
  have len: "length (audio_buffer ?s) = 3" by (simp add: reset_state_def)
  have adc: "\<forall>k < 3. adc_input ?s (adc_reads ?s + k) \<le> 4095"
    by (simp add: reset_state_def adc_of_list_def nth_Cons')
  obtain s' where s': "grava_loop 3 (float_round (1 / 10)) 0 0 ?s = Inr s'"
      "length (audio_buffer s') = 3" "\<forall>v \<in> set (audio_buffer s'). v \<le> 4095"
    using capture_loop_bounded [OF len adc] by blast
  have "audio_buffer s' ! 0 \<le> 4095" "audio_buffer s' ! 1 \<le> 4095" "audio_buffer s' ! 2 \<le> 4095"
    using s'(2,3) by (simp_all add: all_set_conv_all_nth)
  then show ?thesis using s'(1,2) by blast
qed

text \<open>
  Claim C7 as stated fails: three readings of 4095 (full scale of the 12-bit ADC) leave
  409, 777 and 1108 in the buffer, and 1108 is above 1023.
\<close>

theorem capture_exceeds_output_range:
  "map_sum id audio_buffer
     (grava_loop 3 (float_round (1 / 10)) 0 0 (reset_state 3 [4095, 4095, 4095]))
   = Inr [409, 777, 1108]
   \<and> \<not> (1108 :: uint16_t) \<le> 1023"
proof -
  let ?s = "reset_state 3 [4095, 4095, 4095]"
  have pend: "adc_pending ?s 3 = [4095, 4095, 4095]"
    using adc_pending_reset [of 3 "[4095, 4095, 4095]"] by (simp add: numeral_3_eq_3)
  have cap: "capture (float_round (1 / 10)) 0 (adc_pending ?s 3) = Inr [409, 777, 1108]"
    by (simp only: pend capture_full_scale_adc)
  have len: "length (audio_buffer ?s) = 3" by (simp add: reset_state_def)
  show ?thesis
    using grava_loop_capture [OF cap _ len, of 0] by simp
qed

text \<open>
  Claim C6, as amended. Raw readings 100, 100, 100 with \<open>alpha = 0.1f\<close> and filter seed
  0 give the filtered sequence 10, 19, 27; normalising it gives 378, 719, 1023
  (\<open>10 * 1023 div 27 = 378\<close>, \<open>19 * 1023 div 27 = 719\<close>).
\<close>

theorem end_to_end_scenario:
  "map_sum id audio_buffer
     (grava_loop 3 (float_round (1 / 10)) 0 0
        (gpio_put LED_RED_PIN True (reset_state 3 [100, 100, 100])))
   = Inr [10, 19, 27]
   \<and> normalize_audio [10, 19, 27] 3 = Inr [378, 719, 1023]
   \<and> map_sum id audio_buffer (grava_audio 3 (reset_state 3 [100, 100, 100]))
     = Inr [378, 719, 1023]"
proof -
  let ?rst = "reset_state 3 [100, 100, 100]"
  let ?red = "gpio_put LED_RED_PIN True ?rst"
  have "adc_pending ?red 3 = adc_pending ?rst 3"
    by (rule adc_pending_cong) (simp_all add: gpio_put_def)
  also have "\<dots> = [100, 100, 100]"
    using adc_pending_reset [of 3 "[100, 100, 100]"] by (simp add: numeral_3_eq_3)
  finally have pend: "adc_pending ?red 3 = [100, 100, 100]" .
  have cap: "capture (float_round (1 / 10)) 0 (adc_pending ?red 3) = Inr [10, 19, 27]"
    by (simp only: pend capture_example)
  have len: "length (audio_buffer ?red) = 3" by (simp add: reset_state_def gpio_put_def)
  have loop: "grava_loop 3 (float_round (1 / 10)) 0 0 ?red
      = Inr (?red\<lparr>audio_buffer := [10, 19, 27], adc_reads := adc_reads ?red + 3,
                trace := trace ?red @ replicate 3 (SleepUs (1000000 div SAMPLE_RATE))\<rparr>)"
    using grava_loop_capture [OF cap _ len, of 0] by simp
  have "map_sum id audio_buffer (grava_audio 3 ?rst) = Inr [378, 719, 1023]"
    by (simp add: grava_audio_def Let_def loop normalize_example) (simp add: gpio_put_def)
  then show ?thesis using loop normalize_example by simp
qed

text \<open>
  Claim C6 as stated fails: the normalised buffer is not 370, 703, 1023.
\<close>

theorem end_to_end_spec_values_wrong:
  "normalize_audio [10, 19, 27] 3 \<noteq> Inr [370, 703, 1023]"
  by (simp add: normalize_example)


section \<open>Properties of \<^verbatim>\<open>reproduz_audio\<close>\<close>

lemma reproduz_loop_trace:
  "i + n = N \<Longrightarrow> length (audio_buffer s) = N \<Longrightarrow>
   reproduz_loop N i s =
     Inr (s\<lparr>trace := trace s @
            concat (map (\<lambda>v. [PwmSetChanLevel BUZZER_LEFT v, PwmSetChanLevel BUZZER_RIGHT v,
                               SleepUs (1000000 div SAMPLE_RATE)])
                        (drop i (audio_buffer s)))\<rparr>)"
proof (induction n arbitrary: i s)
  case 0
  then show ?case by (subst reproduz_loop.simps) simp
next
  case (Suc n)
  let ?v = "audio_buffer s ! i"
  let ?nxt = "sleep_us (1000000 div SAMPLE_RATE)
                (play_sample BUZZER_RIGHT ?v (play_sample BUZZER_LEFT ?v s))"
  have i: "i < N" using Suc.prems(1) by simp
  have buf: "audio_buffer ?nxt = audio_buffer s"
    by (simp add: sleep_us_def play_sample_def)
  have step: "reproduz_loop N i s = reproduz_loop N (Suc i) ?nxt"
    using i Suc.prems(2) by (subst reproduz_loop.simps) simp
  have "reproduz_loop N (Suc i) ?nxt =
     Inr (?nxt\<lparr>trace := trace ?nxt @
            concat (map (\<lambda>v. [PwmSetChanLevel BUZZER_LEFT v, PwmSetChanLevel BUZZER_RIGHT v,
                               SleepUs (1000000 div SAMPLE_RATE)])
                        (drop (Suc i) (audio_buffer ?nxt)))\<rparr>)"
    using Suc.prems by (intro Suc.IH) (simp_all add: buf)
  moreover have "drop i (audio_buffer s) = ?v # drop (Suc i) (audio_buffer s)"
    using i Suc.prems(2) by (simp add: Cons_nth_drop_Suc)
  ultimately show ?case
    using step by (simp add: sleep_us_def play_sample_def)
qed

lemma pwm_writes_append: "pwm_writes (xs @ ys) = pwm_writes xs @ pwm_writes ys"
  by (induction xs rule: pwm_writes.induct) simp_all

lemma pwm_writes_playback:
  "pwm_writes (concat (map (\<lambda>v. [PwmSetChanLevel l v, PwmSetChanLevel r v, SleepUs d]) buf))
   = concat (map (\<lambda>v. [(l, v), (r, v)]) buf)"
  by (induction buf) simp_all

text \<open>
  Claim C4. Started with the buffer of \<open>N\<close> entries, \<^verbatim>\<open>reproduz_audio\<close> returns
  normally, leaves the buffer unchanged and issues these PWM writes, in this order: for
  each buffer position \<open>i = 0, \<dots>, N - 1\<close> the entry at \<open>i\<close> to the left and then to the
  right buzzer, and after them exactly one write of 0 to each buzzer; \<open>2 * N + 2\<close> writes
  in all.
\<close>

theorem reproduz_audio_writes:
  assumes "length (audio_buffer s) = N"
  shows "\<exists>s'. reproduz_audio N s = Inr s'
     \<and> audio_buffer s' = audio_buffer s
     \<and> trace s' = trace s @ [GpioPut LED_GREEN_PIN True]
          @ concat (map (\<lambda>v. [PwmSetChanLevel BUZZER_LEFT v, PwmSetChanLevel BUZZER_RIGHT v,
                               SleepUs (1000000 div SAMPLE_RATE)]) (audio_buffer s))
          @ [PwmSetChanLevel BUZZER_LEFT 0, PwmSetChanLevel BUZZER_RIGHT 0,
             GpioPut LED_GREEN_PIN False]
     \<and> pwm_writes (drop (length (trace s)) (trace s'))
         = concat (map (\<lambda>v. [(BUZZER_LEFT, v), (BUZZER_RIGHT, v)]) (audio_buffer s))
           @ [(BUZZER_LEFT, 0), (BUZZER_RIGHT, 0)]
     \<and> length (pwm_writes (drop (length (trace s)) (trace s'))) = 2 * N + 2"
proof -
  let ?on = "gpio_put LED_GREEN_PIN True s"
  let ?play = "concat (map (\<lambda>v. [PwmSetChanLevel BUZZER_LEFT v, PwmSetChanLevel BUZZER_RIGHT v,
                               SleepUs (1000000 div SAMPLE_RATE)]) (audio_buffer s))"
  have len: "length (audio_buffer ?on) = N" using assms by (simp add: gpio_put_def)
  have loop: "reproduz_loop N 0 ?on = Inr (?on\<lparr>trace := trace ?on @ ?play\<rparr>)"
    using reproduz_loop_trace [of 0 N N ?on] len by (simp add: gpio_put_def)
  define s' where "s' = gpio_put LED_GREEN_PIN False
      (play_sample BUZZER_RIGHT 0 (play_sample BUZZER_LEFT 0 (?on\<lparr>trace := trace ?on @ ?play\<rparr>)))"
  have run: "reproduz_audio N s = Inr s'"
    by (simp add: reproduz_audio_def loop s'_def)
  have buf: "audio_buffer s' = audio_buffer s"
    by (simp add: s'_def gpio_put_def play_sample_def)
  have tr: "trace s' = trace s @ [GpioPut LED_GREEN_PIN True] @ ?play
          @ [PwmSetChanLevel BUZZER_LEFT 0, PwmSetChanLevel BUZZER_RIGHT 0,
             GpioPut LED_GREEN_PIN False]"
    by (simp add: s'_def gpio_put_def play_sample_def)
  have pw: "pwm_writes (drop (length (trace s)) (trace s'))
         = concat (map (\<lambda>v. [(BUZZER_LEFT, v), (BUZZER_RIGHT, v)]) (audio_buffer s))
           @ [(BUZZER_LEFT, 0), (BUZZER_RIGHT, 0)]"
    by (simp add: tr pwm_writes_append pwm_writes_playback)
  have "length (concat (map (\<lambda>v. [(BUZZER_LEFT, v), (BUZZER_RIGHT, v)]) (audio_buffer s))) = 2 * N"
    using assms by (simp add: length_concat comp_def sum_list_triv)
  then have cnt: "length (pwm_writes (drop (length (trace s)) (trace s'))) = 2 * N + 2"
    by (simp add: pw)
  show ?thesis using run buf tr pw cnt by blast
qed

theorem reproduz_audio_writes_witness:
  "\<exists>s'. reproduz_audio 2 \<lparr>audio_buffer = [378, 1023], adc_input = adc_of_list [],
                            adc_reads = 0, trace = []\<rparr> = Inr s'
     \<and> audio_buffer s' = [378, 1023]
     \<and> pwm_writes (trace s')
         = [(BUZZER_LEFT, 378), (BUZZER_RIGHT, 378), (BUZZER_LEFT, 1023), (BUZZER_RIGHT, 1023),
            (BUZZER_LEFT, 0), (BUZZER_RIGHT, 0)]"
  using reproduz_audio_writes
    [of "\<lparr>audio_buffer = [378, 1023], adc_input = adc_of_list [], adc_reads = 0, trace = []\<rparr>" 2]
  by auto


section \<open>Properties of \<^verbatim>\<open>moving_average_filter\<close>\<close>

lemma c_add_in_range: "in_int (a + b) \<Longrightarrow> c_add a b = Inr (a + b)"
  by (simp add: c_add_def)

lemma c_add_Inr: "c_add a b = Inr c \<Longrightarrow> c = a + b"
  by (simp add: c_add_def split: if_splits)

lemma c_add_not_div: "c_add a b \<noteq> Inl DivisionByZero"
  by (simp add: c_add_def)

lemma c_sub_not_div: "c_sub a b \<noteq> Inl DivisionByZero"
  by (simp add: c_sub_def)

text \<open>When the loop returns, the counter has grown by the number of accepted indices.\<close>

lemma mavg_loop_count:
  "mavg_loop N buffer hi i sum_v count = Inr (s, c) \<Longrightarrow>
   c = count + int (length (filter (\<lambda>k. 0 \<le> k \<and> k < int N) [i..hi]))"
proof (induction N buffer hi i sum_v count rule: mavg_loop.induct)
  case (1 N buffer hi i sum_v count)
  show ?case
  proof (cases "i \<le> hi")
    case False
    then show ?thesis using "1.prems" by (subst (asm) mavg_loop.simps) simp
  next
    case le: True
    have up: "[i..hi] = i # [i + 1..hi]" using le by (rule upto_rec1)
    show ?thesis
    proof (cases "0 \<le> i \<and> i < int N")
      case True
      from "1.prems" le True obtain sum' count' where
        a: "nat i < length buffer" "c_add sum_v (uint (buffer ! nat i)) = Inr sum'"
           "c_add count 1 = Inr count'" "i < INT_MAX"
        and r: "mavg_loop N buffer hi (i + 1) sum' count' = Inr (s, c)"
        by (subst (asm) mavg_loop.simps) (auto split: if_splits sum.splits)
      have "c = count' + int (length (filter (\<lambda>k. 0 \<le> k \<and> k < int N) [i + 1..hi]))"
        using "1.IH"(1) [OF le True a r] .
      then show ?thesis using c_add_Inr [OF a(3)] True by (simp add: up)
    next
      case False
      from "1.prems" le False have
        a: "i < INT_MAX" and r: "mavg_loop N buffer hi (i + 1) sum_v count = Inr (s, c)"
        by (subst (asm) mavg_loop.simps, auto split: if_splits)+
      have "c = count + int (length (filter (\<lambda>k. 0 \<le> k \<and> k < int N) [i + 1..hi]))"
        using "1.IH"(2) [OF le False a r] .
      then show ?thesis using False by (simp add: up)
    qed
  qed
qed

lemma mavg_loop_not_div:
  "mavg_loop N buffer hi i sum_v count \<noteq> Inl DivisionByZero"
proof (induction N buffer hi i sum_v count rule: mavg_loop.induct)
  case (1 N buffer hi i sum_v count)
  show ?case
    using "1.IH"
    by (subst mavg_loop.simps) (auto simp: c_add_not_div split: sum.splits)
qed

lemma sum_list_uint_nonneg: "0 \<le> sum_list (map (\<lambda>k. uint (buffer ! nat k :: uint16_t)) ks)"
  by (rule sum_list_nonneg) auto

lemma sum_list_uint_le:
  "sum_list (map (\<lambda>k. uint (buffer ! nat k :: uint16_t)) ks) \<le> 65535 * int (length ks)"
proof (induction ks)
  case Nil
  then show ?case by simp
next
  case (Cons k ks)
  have "uint (buffer ! nat k) < 65536" using uint_bounded [of "buffer ! nat k"] by simp
  then show ?case using Cons.IH by simp
qed

text \<open>Without overflow the loop returns the sum and the number of the accepted entries.\<close>

lemma mavg_loop_eq:
  "N \<le> length buffer \<Longrightarrow> hi < INT_MAX \<Longrightarrow> 0 \<le> sum_v \<Longrightarrow> 0 \<le> count \<Longrightarrow>
   sum_v + sum_list (map (\<lambda>k. uint (buffer ! nat k))
                       (filter (\<lambda>k. 0 \<le> k \<and> k < int N) [i..hi])) \<le> INT_MAX \<Longrightarrow>
   count + int (length (filter (\<lambda>k. 0 \<le> k \<and> k < int N) [i..hi])) \<le> INT_MAX \<Longrightarrow>
   mavg_loop N buffer hi i sum_v count =
     Inr (sum_v + sum_list (map (\<lambda>k. uint (buffer ! nat k))
                              (filter (\<lambda>k. 0 \<le> k \<and> k < int N) [i..hi])),
          count + int (length (filter (\<lambda>k. 0 \<le> k \<and> k < int N) [i..hi])))"
proof (induction N buffer hi i sum_v count rule: mavg_loop.induct)
  case (1 N buffer hi i sum_v count)
  let ?P = "\<lambda>k. 0 \<le> k \<and> k < int N"
  let ?f = "\<lambda>k. uint (buffer ! nat k)"
  show ?case
  proof (cases "i \<le> hi")
    case False
    then show ?thesis by (subst mavg_loop.simps) simp
  next
    case le: True
    have up: "[i..hi] = i # [i + 1..hi]" using le by (rule upto_rec1)
    have imax: "i < INT_MAX" using le "1.prems"(2) by simp
    show ?thesis
    proof (cases "?P i")
      case True
      let ?rest = "filter ?P [i + 1..hi]"
      have sel: "filter ?P [i..hi] = i # ?rest" using True by (simp add: up)
      have rest0: "0 \<le> sum_list (map ?f ?rest)" by (rule sum_list_uint_nonneg)
      have v0: "0 \<le> ?f i" by simp
      have total: "sum_v + ?f i + sum_list (map ?f ?rest) \<le> INT_MAX"
        using "1.prems"(5) by (simp add: sel add.assoc)
      have cnt: "count + 1 + int (length ?rest) \<le> INT_MAX"
        using "1.prems"(6) by (simp add: sel)
      have inb: "nat i < length buffer" using True "1.prems"(1) by linarith
      have s1: "c_add sum_v (?f i) = Inr (sum_v + ?f i)"
        using "1.prems"(3) v0 rest0 total
        by (intro c_add_in_range; unfold in_int_def INT_MIN_def; linarith)
      have c1: "c_add count 1 = Inr (count + 1)"
        using "1.prems"(4) cnt
        by (intro c_add_in_range; unfold in_int_def INT_MIN_def; linarith)
      have step: "mavg_loop N buffer hi i sum_v count
                  = mavg_loop N buffer hi (i + 1) (sum_v + ?f i) (count + 1)"
        using le True inb imax by (subst mavg_loop.simps) (simp add: s1 c1)
      have "mavg_loop N buffer hi (i + 1) (sum_v + ?f i) (count + 1)
            = Inr (sum_v + ?f i + sum_list (map ?f ?rest), count + 1 + int (length ?rest))"
        using "1.prems"(1,2,3,4) v0 total cnt
        by (intro "1.IH"(1) [OF le True inb s1 c1 imax]) simp_all
      then show ?thesis using step by (simp add: sel add.assoc)
    next
      case False
      have sel: "filter ?P [i..hi] = filter ?P [i + 1..hi]" using False by (simp add: up)
      have step: "mavg_loop N buffer hi i sum_v count
                  = mavg_loop N buffer hi (i + 1) sum_v count"
        using le False imax by (subst mavg_loop.simps) auto
      show ?thesis
        unfolding step sel
        using "1.prems" by (intro "1.IH"(2) [OF le False imax]) (simp_all add: sel)
    qed
  qed
qed

lemma window_indices_length: "int (length (window_indices N index window)) \<le> int N"
proof -
  let ?ks = "window_indices N index window"
  have "distinct ?ks" by (simp add: window_indices_def)
  then have "length ?ks = card (set ?ks)" by (simp add: distinct_card)
  also have "\<dots> \<le> card {0..<int N}"
    by (intro card_mono) (auto simp: window_indices_def)
  finally show ?thesis by simp
qed

lemma moving_average_filter_run:
  assumes "N \<le> length buffer" and "int N \<le> INT_MAX"
    and "in_int (index - window)" and "INT_MIN \<le> index + window" and "index + window < INT_MAX"
    and "window_indices N index window \<noteq> []"
    and "sum_list (map (\<lambda>k. uint (buffer ! nat k)) (window_indices N index window)) \<le> INT_MAX"
  shows "\<exists>r. moving_average_filter N buffer index window = Inr r
           \<and> uint r = sum_list (map (\<lambda>k. uint (buffer ! nat k)) (window_indices N index window))
                       div int (length (window_indices N index window))"
proof -
  let ?ks = "window_indices N index window"
  let ?S = "sum_list (map (\<lambda>k. uint (buffer ! nat k)) ?ks)"
  let ?n = "int (length ?ks)"
  have n0: "0 < ?n" using assms(6) by simp
  have nN: "?n \<le> INT_MAX" using window_indices_length [of N index window] assms(2) by linarith
  have S0: "0 \<le> ?S" by (rule sum_list_uint_nonneg)
  have lo: "c_sub index window = Inr (index - window)"
    using assms(3) by (simp add: c_sub_def)
  have hi: "c_add index window = Inr (index + window)"
    using assms(4,5) by (simp add: c_add_def in_int_def)
  have loop: "mavg_loop N buffer (index + window) (index - window) 0 0 = Inr (?S, ?n)"
    using mavg_loop_eq [of N buffer "index + window" 0 0 "index - window"] assms(1,5,7) nN
    by (simp add: window_indices_def)
  have q0: "0 \<le> ?S div ?n" using S0 n0 by (simp add: pos_imp_zdiv_nonneg_iff)
  have "?S div ?n \<le> (65535 * ?n) div ?n"
    using sum_list_uint_le [of buffer ?ks] n0 by (intro zdiv_mono1) simp_all
  then have q1: "?S div ?n \<le> 65535" using n0 by simp
  have sd: "?S sdiv ?n = ?S div ?n"
    using S0 n0 by (simp add: signed_divide_int_def sgn_if)
  have dv: "c_div ?S ?n = Inr (?S div ?n)"
    using n0 q0 q1 by (simp add: c_div_def sd in_int_def INT_MIN_def INT_MAX_def)
  have run: "moving_average_filter N buffer index window = Inr (word_of_int (?S div ?n))"
    by (simp add: moving_average_filter_def lo hi loop dv)
  have "uint (word_of_int (?S div ?n) :: uint16_t) = ?S div ?n"
    using q0 q1 by (simp add: uint_word_of_int)
  then show ?thesis using run by blast
qed

lemma window_indices_start: "6 \<le> N \<Longrightarrow> window_indices N 0 5 = [0, 1, 2, 3, 4, 5]"
  by (simp add: window_indices_def upto_rec1 [of "- 1" 5] upto_rec1 [of 0 5] upto_rec1 [of 1 5])

lemma ne_set_nonempty: "x \<in> set xs \<Longrightarrow> xs \<noteq> []"
  by auto

lemma mavg_loop_below_zero:
  "hi < 0 \<Longrightarrow> mavg_loop N buffer hi i sum_v count = Inr (sum_v, count)"
proof (induction N buffer hi i sum_v count rule: mavg_loop.induct)
  case (1 N buffer hi i sum_v count)
  show ?case
  proof (cases "i \<le> hi")
    case False
    then show ?thesis by (subst mavg_loop.simps) simp
  next
    case True
    have out: "\<not> (0 \<le> i \<and> i < int N)" using True "1.prems" by simp
    have imax: "i < INT_MAX" using True "1.prems" by (simp add: INT_MAX_def)
    have "mavg_loop N buffer hi i sum_v count = mavg_loop N buffer hi (i + 1) sum_v count"
      using True out imax by (subst mavg_loop.simps) auto
    then show ?thesis using "1.IH"(2) [OF True out imax "1.prems"] by simp
  qed
qed

lemma moving_average_filter_empty_window:
  assumes "in_int (index - window)" and "in_int (index + window)" and "index + window < 0"
  shows "moving_average_filter N buffer index window = Inl DivisionByZero"
  using assms
  by (simp add: moving_average_filter_def c_sub_def c_add_def mavg_loop_below_zero c_div_def)

text \<open>
  Claim C8, as amended. Let the buffer have at least \<open>N\<close> entries, let at least one index
  of \<open>[index - window, index + window]\<close> lie in \<open>[0, N - 1]\<close>, and let the \<^verbatim>\<open>int\<close>
  arithmetic stay in range (\<open>index - window\<close> and \<open>index + window\<close> are \<^verbatim>\<open>int\<close> values,
  \<open>index + window\<close> is below \<open>INT_MAX\<close>, the sum of the selected entries is at most
  \<open>INT_MAX\<close>). Then \<^verbatim>\<open>moving_average_filter\<close> returns the sum of exactly the entries whose
  indices lie in both intervals, divided by their number and truncated. The function only
  reads the buffer: its result is the returned value. For \<open>index = 0\<close> and \<open>window = 5\<close>
  the selected indices are the six indices 0 to 5.
\<close>

theorem moving_average_filter_mean:
  assumes "N \<le> length buffer" and "int N \<le> INT_MAX"
    and "in_int (index - window)" and "INT_MIN \<le> index + window" and "index + window < INT_MAX"
    and "window_indices N index window \<noteq> []"
    and "sum_list (map (\<lambda>k. uint (buffer ! nat k)) (window_indices N index window)) \<le> INT_MAX"
  shows "(\<exists>r. moving_average_filter N buffer index window = Inr r
            \<and> uint r = sum_list (map (\<lambda>k. uint (buffer ! nat k)) (window_indices N index window))
                        div int (length (window_indices N index window)))
         \<and> (6 \<le> N \<longrightarrow> window_indices N 0 5 = [0, 1, 2, 3, 4, 5])"
proof (intro conjI impI)
  show "\<exists>r. moving_average_filter N buffer index window = Inr r
            \<and> uint r = sum_list (map (\<lambda>k. uint (buffer ! nat k)) (window_indices N index window))
                        div int (length (window_indices N index window))"
    by (rule moving_average_filter_run [OF assms])
next
  assume "6 \<le> N"
  then show "window_indices N 0 5 = [0, 1, 2, 3, 4, 5]" by (rule window_indices_start)
qed

theorem moving_average_filter_mean_witness:
  "moving_average_filter 8 [1, 2, 3, 4, 5, 6, 7, 8] 0 5 = Inr 3"
proof -
  let ?buf = "[1, 2, 3, 4, 5, 6, 7, 8 :: uint16_t]"
  have w: "window_indices 8 0 5 = [0, 1, 2, 3, 4, 5]"
    by (rule window_indices_start) simp
  have total: "sum_list (map (\<lambda>k. uint (?buf ! nat k)) (window_indices 8 0 5)) = 21"
    by (simp add: w)
  have h1: "8 \<le> length ?buf" by simp
  have h2: "int 8 \<le> INT_MAX" by (simp add: INT_MAX_def)
  have h3: "in_int (0 - 5)" by (simp add: in_int_def INT_MIN_def INT_MAX_def)
  have h4: "INT_MIN \<le> 0 + 5" by (simp add: INT_MIN_def)
  have h5: "0 + 5 < INT_MAX" by (simp add: INT_MAX_def)
  have h6: "window_indices 8 0 5 \<noteq> []" by (simp add: w)
  have h7: "sum_list (map (\<lambda>k. uint (?buf ! nat k)) (window_indices 8 0 5)) \<le> INT_MAX"
    by (simp only: total) (simp add: INT_MAX_def)
  from moving_average_filter_mean [OF h1 h2 h3 h4 h5 h6 h7]
  obtain r where r: "moving_average_filter 8 ?buf 0 5 = Inr r"
      "uint r = sum_list (map (\<lambda>k. uint (?buf ! nat k)) (window_indices 8 0 5))
                div int (length (window_indices 8 0 5))"
    by blast
  have "uint r = 21 div int (length (window_indices 8 0 5))"
    using r(2) by (simp only: total)
  then have "uint r = uint (3 :: uint16_t)" by (simp add: w)
  then have "r = 3" by (simp only: word_uint_eq_iff)
  then show ?thesis using r(1) by simp
qed

text \<open>
  Claim C8 as stated fails: for \<open>index = - 10\<close> and \<open>window = 5\<close> no index of the window
  lies in the buffer, the counter stays 0 and the final division divides by zero.
\<close>

theorem moving_average_filter_empty_counterexample:
  "moving_average_filter MAX_SAMPLES (replicate MAX_SAMPLES 0) (- 10) 5 = Inl DivisionByZero"
  by (rule moving_average_filter_empty_window) (simp_all add: in_int_def INT_MIN_def INT_MAX_def)

text \<open>
  When the loop returns, the counter is at least 1 under \<open>0 \<le> index < N\<close> and
  \<open>0 \<le> window\<close>, and the function never yields the division-by-zero error there; the
  statement says nothing about the calls whose \<^verbatim>\<open>int\<close> arithmetic overflows.
\<close>

lemma moving_average_no_division_by_zero:
  assumes "0 \<le> index" and "index < int N" and "0 \<le> window"
  shows "moving_average_filter N buffer index window \<noteq> Inl DivisionByZero"
    and "mavg_loop N buffer (index + window) (index - window) 0 0 = Inr (sum_v, count)
         \<Longrightarrow> 1 \<le> count"
proof -
  let ?P = "\<lambda>k. 0 \<le> k \<and> k < int N"
  have "index \<in> set (filter ?P [index - window..index + window])"
    using assms by simp
  then have "filter ?P [index - window..index + window] \<noteq> []"
    by (rule ne_set_nonempty)
  then have pos: "1 \<le> int (length (filter ?P [index - window..index + window]))"
    by (cases "filter ?P [index - window..index + window]") simp_all
  have count: "1 \<le> c"
    if "mavg_loop N buffer (index + window) (index - window) 0 0 = Inr (s, c)" for s c
    using mavg_loop_count [OF that] pos by simp
  show "moving_average_filter N buffer index window \<noteq> Inl DivisionByZero"
  proof
    assume "moving_average_filter N buffer index window = Inl DivisionByZero"
    then obtain lo hi s c where run: "c_sub index window = Inr lo" "c_add index window = Inr hi"
        "mavg_loop N buffer hi lo 0 0 = Inr (s, c)" "c_div s c = Inl DivisionByZero"
      by (auto simp: moving_average_filter_def c_sub_not_div c_add_not_div mavg_loop_not_div
          split: sum.splits)
    have "lo = index - window" using run(1) by (simp add: c_sub_def split: if_splits)
    moreover have "hi = index + window" using run(2) by (rule c_add_Inr)
    ultimately have "1 \<le> c" using run(3) count by simp
    then show False using run(4) by (simp add: c_div_def split: if_splits)
  qed
  assume "mavg_loop N buffer (index + window) (index - window) 0 0 = Inr (sum_v, count)"
  then show "1 \<le> count" by (rule count)
qed

text \<open>
  Claim C10, as amended. Let \<open>0 \<le> index < N\<close> and \<open>0 \<le> window\<close>, let the buffer have at
  least \<open>N\<close> entries and let the \<^verbatim>\<open>int\<close> arithmetic stay in range (\<open>index - window\<close> is
  an \<^verbatim>\<open>int\<close> value, \<open>index + window\<close> is below \<open>INT_MAX\<close>, the sum of the selected entries
  is at most \<open>INT_MAX\<close>). Then the loop returns, its counter is the number of window
  indices inside \<open>[0, N - 1]\<close>, which is at least 1, and \<^verbatim>\<open>moving_average_filter\<close>
  returns a value: the final division does not divide by zero. Without
  \<open>0 \<le> index < N\<close> the divisor can be zero: it is for \<open>index = - 7\<close> and \<open>window = 3\<close>.
\<close>

theorem moving_average_count_positive:
  "(N \<le> length buffer \<and> int N \<le> INT_MAX
      \<and> 0 \<le> index \<and> index < int N \<and> 0 \<le> window
      \<and> in_int (index - window) \<and> index + window < INT_MAX
      \<and> sum_list (map (\<lambda>k. uint (buffer ! nat k)) (window_indices N index window)) \<le> INT_MAX
    \<longrightarrow>
      mavg_loop N buffer (index + window) (index - window) 0 0
        = Inr (sum_list (map (\<lambda>k. uint (buffer ! nat k)) (window_indices N index window)),
               int (length (window_indices N index window)))
      \<and> 1 \<le> int (length (window_indices N index window))
      \<and> (\<exists>r. moving_average_filter N buffer index window = Inr r))
   \<and> moving_average_filter MAX_SAMPLES (replicate MAX_SAMPLES 0) (- 7) 3 = Inl DivisionByZero"
proof (intro conjI impI)
  assume pre: "N \<le> length buffer \<and> int N \<le> INT_MAX
      \<and> 0 \<le> index \<and> index < int N \<and> 0 \<le> window
      \<and> in_int (index - window) \<and> index + window < INT_MAX
      \<and> sum_list (map (\<lambda>k. uint (buffer ! nat k)) (window_indices N index window)) \<le> INT_MAX"
  let ?ks = "window_indices N index window"
  have "index \<in> set ?ks" using pre by (simp add: window_indices_def)
  then have ne: "?ks \<noteq> []" by (rule ne_set_nonempty)
  then show pos: "1 \<le> int (length ?ks)" by (cases ?ks) simp_all
  have nN: "int (length ?ks) \<le> INT_MAX"
    using window_indices_length [of N index window] pre by linarith
  show "mavg_loop N buffer (index + window) (index - window) 0 0
        = Inr (sum_list (map (\<lambda>k. uint (buffer ! nat k)) ?ks), int (length ?ks))"
    using mavg_loop_eq [of N buffer "index + window" 0 0 "index - window"] pre nN
    by (simp add: window_indices_def)
  have lo: "INT_MIN \<le> index + window" using pre by (simp add: INT_MIN_def)
  show "\<exists>r. moving_average_filter N buffer index window = Inr r"
    using moving_average_filter_run [of N buffer index window] pre lo ne by blast
next
  show "moving_average_filter MAX_SAMPLES (replicate MAX_SAMPLES 0) (- 7) 3 = Inl DivisionByZero"
    by (rule moving_average_filter_empty_window)
       (simp_all add: in_int_def INT_MIN_def INT_MAX_def)
qed

theorem moving_average_count_positive_witness:
  "mavg_loop 8 [1, 2, 3, 4, 5, 6, 7, 8] 3 1 0 0 = Inr (9, 3)
   \<and> (\<exists>r. moving_average_filter 8 [1, 2, 3, 4, 5, 6, 7, 8] 2 1 = Inr r)"
proof -
  let ?buf = "[1, 2, 3, 4, 5, 6, 7, 8 :: uint16_t]"
  have w: "window_indices 8 2 1 = [1, 2, 3]"
    by (simp add: window_indices_def upto_rec1 [of 1 3])
  have total: "sum_list (map (\<lambda>k. uint (?buf ! nat k)) (window_indices 8 2 1)) = 9"
    by (simp add: w)
  have pre: "8 \<le> length ?buf \<and> int 8 \<le> INT_MAX
      \<and> (0::int) \<le> 2 \<and> (2::int) < int 8 \<and> (0::int) \<le> 1
      \<and> in_int (2 - 1) \<and> (2::int) + 1 < INT_MAX
      \<and> sum_list (map (\<lambda>k. uint (?buf ! nat k)) (window_indices 8 2 1)) \<le> INT_MAX"
    by (simp only: total) (simp add: in_int_def INT_MIN_def INT_MAX_def)
  from moving_average_count_positive [of 8 ?buf 2 1, THEN conjunct1, rule_format, OF pre]
  have "mavg_loop 8 ?buf (2 + 1) (2 - 1) 0 0
          = Inr (sum_list (map (\<lambda>k. uint (?buf ! nat k)) (window_indices 8 2 1)),
                 int (length (window_indices 8 2 1)))"
    and "\<exists>r. moving_average_filter 8 ?buf 2 1 = Inr r"
    by blast+
  then show ?thesis by (simp add: total w)
qed

text \<open>
  Claim C10 as stated fails: \<open>index = 1\<close> and \<open>window = 2147483647\<close> satisfy
  \<open>0 \<le> index < N\<close> and \<open>0 \<le> window\<close>, but \<open>index + window\<close> overflows \<^verbatim>\<open>int\<close>, so the
  call has no defined result and no counter of at least 1. With the two's complement
  wrap of the sum, \<open>- 2147483648\<close>, as upper bound the loop body never runs: the counter
  stays 0 and the division that follows divides by zero.
\<close>

theorem moving_average_precondition_overflow:
  "(0::int) \<le> 1 \<and> (1::int) < int MAX_SAMPLES \<and> (0::int) \<le> 2147483647
   \<and> moving_average_filter MAX_SAMPLES (replicate MAX_SAMPLES 0) 1 2147483647
       = Inl IntOverflow
   \<and> mavg_loop MAX_SAMPLES (replicate MAX_SAMPLES 0) (- 2147483648) (1 - 2147483647) 0 0
       = Inr (0, 0)
   \<and> c_div 0 0 = Inl DivisionByZero"
proof (intro conjI)
  show "moving_average_filter MAX_SAMPLES (replicate MAX_SAMPLES 0) 1 2147483647
        = Inl IntOverflow"
    by (simp add: moving_average_filter_def c_sub_def c_add_def in_int_def
        INT_MIN_def INT_MAX_def)
  show "mavg_loop MAX_SAMPLES (replicate MAX_SAMPLES 0) (- 2147483648) (1 - 2147483647) 0 0
        = Inr (0, 0)"
    by (rule mavg_loop_below_zero) simp
  show "c_div 0 0 = Inl DivisionByZero" by (simp add: c_div_def)
qed (simp_all add: MAX_SAMPLES_value)


end
